theory Spec2Isabelle
  imports Main "HOL-Library.Multiset"
begin

section \<open>The message service of \<^verbatim>\<open>src/app/server.py\<close>\<close>

text \<open>
  The service has one endpoint, \<^verbatim>\<open>post_message\<close>. Inside one database transaction it
  reads (or creates) the row of the sender in table \<^verbatim>\<open>users\<close>, increments the sender's
  counter \<^verbatim>\<open>last_msg_num\<close>, inserts a row into table \<^verbatim>\<open>messages\<close> carrying the new counter
  value, and reads back the ten newest messages whose identifier does not exceed the
  identifier of the row just inserted.

  A call is a function from the store to a result and a new store; two calls that overlap
  in time are treated at the end of the model. Python integers are \<^typ>\<open>int\<close>; a
  timestamp is an \<^typ>\<open>int\<close> handed in by the caller of the model, standing for the value of
  \<^verbatim>\<open>now()\<close> that the database supplies.
\<close>

subsection \<open>Schema\<close>

text \<open>
  The rows of the two tables (classes \<^verbatim>\<open>User\<close> and \<^verbatim>\<open>Message\<close>). Column \<^verbatim>\<open>id\<close> is written
  \<open>id_user\<close> and column \<^verbatim>\<open>text\<close> is written \<open>text_msg\<close>, since \<open>id\<close> is a constant of HOL and
  \<open>text\<close> a keyword of Isabelle.
\<close>

record User =
  id_user :: int
  username :: string
  last_msg_num :: int

record Message =
  message_id :: int
  sender_name :: string
  text_msg :: string
  created_at :: int
  user_msg_num :: int

text \<open>
  The request and response models (classes \<^verbatim>\<open>MessageRequest\<close>, \<^verbatim>\<open>MessageResponse\<close> and
  \<^verbatim>\<open>MessagesListResponse\<close>). Their fields carry the suffixes \<open>_req\<close> and \<open>_resp\<close> to keep
  them apart from the columns of the same name.
\<close>

record MessageRequest =
  sender_name_req :: string
  text_req :: string

record MessageResponse =
  message_id_resp :: int
  sender_name_resp :: string
  text_resp :: string
  created_at_resp :: int
  user_msg_num_resp :: int

record MessagesListResponse =
  messages_resp :: "MessageResponse list"

text \<open>
  The store: the rows of both tables in the order of their insertion, and the two
  sequences behind the autoincrement columns, each holding the value that the next
  insert receives.
\<close>

record db =
  users :: "User list"
  messages :: "Message list"
  users_id_seq :: int
  messages_id_seq :: int

definition empty_db :: db where
  "empty_db = \<lparr>users = [], messages = [], users_id_seq = 1, messages_id_seq = 1\<rparr>"

text \<open>
  The failures that a statement of the transaction can raise: a violated primary key or
  unique constraint (\<open>IntegrityError\<close>), a value that the database refuses for its column
  (\<open>DataError\<close>: columns of type \<^verbatim>\<open>Integer\<close> hold 32 bits, \<^verbatim>\<open>BigInteger\<close> 64 bits, and
  not every string is a value of a text column), an index entry that is too large
  (\<open>ProgramLimitExceeded\<close>), a failure that has nothing to do with the values sent, such
  as a lost connection, a deadlock, a timeout or a cancelled request
  (\<open>OperationalError\<close>), and \<^verbatim>\<open>scalar_one_or_none\<close> finding more than one row.
\<close>

datatype error =
    IntegrityError
  | DataError
  | ProgramLimitExceeded
  | OperationalError
  | MultipleResultsFound

definition in_int4 :: "int \<Rightarrow> bool" where
  "in_int4 v \<longleftrightarrow> - 2147483648 \<le> v \<and> v \<le> 2147483647"

definition in_int8 :: "int \<Rightarrow> bool" where
  "in_int8 v \<longleftrightarrow> - 9223372036854775808 \<le> v \<and> v \<le> 9223372036854775807"

text \<open>
  The statements that one call sends, in the order in which a call that creates its user
  sends them: the select of lines 130--135, the insert flushed at line 141, the insert
  and the update flushed at line 154, the select of line 167, and the commit at the end
  of \<^verbatim>\<open>db.begin()\<close>.
\<close>

datatype stmt = SelectUser | InsertUser | InsertMessage | UpdateUser | SelectMessages | Commit

text \<open>
  The database server is not part of the source files. What a call depends on and the
  program does not decide is a parameter of the model: which strings the server takes as
  a value of a text column, which names fit into an entry of the unique index on
  \<^verbatim>\<open>users.username\<close> and of the index behind \<^verbatim>\<open>uq_sender_msgnum\<close>, and which statements
  of this call fail for a reason outside the program.
\<close>

record postgres =
  accepts_text :: "string \<Rightarrow> bool"
  fits_ix_users_username :: "string \<Rightarrow> bool"
  fits_uq_sender_msgnum :: "string \<Rightarrow> bool"
  fails :: "stmt \<Rightarrow> bool"

subsection \<open>Statements\<close>

text \<open>
  \<^verbatim>\<open>select(User).where(User.username == name).with_for_update()\<close> followed by
  \<^verbatim>\<open>scalar_one_or_none()\<close>. The name is sent as a parameter, so a string that the server
  refuses fails the statement. \<^verbatim>\<open>FOR UPDATE\<close> locks the row that is returned, and only
  that: see \<open>must_wait\<close> below.
\<close>

definition select_user_for_update :: "postgres \<Rightarrow> string \<Rightarrow> db \<Rightarrow> error + User option" where
  "select_user_for_update pg name d =
     (if fails pg SelectUser then Inl OperationalError
      else if \<not> accepts_text pg name then Inl DataError
      else
        case filter (\<lambda>u. username u = name) (users d) of
          [] \<Rightarrow> Inr None
        | [u] \<Rightarrow> Inr (Some u)
        | _ \<Rightarrow> Inl MultipleResultsFound)"

text \<open>
  The insert flushed for \<^verbatim>\<open>User(username=name, last_msg_num=num)\<close>. Values that the server
  refuses fail the statement before it does anything. Otherwise the identifier comes from
  the sequence, which keeps its new value even if the insert fails; the primary key and
  the unique index on \<^verbatim>\<open>username\<close> are checked, and the name has to fit into that index.
\<close>

definition insert_user :: "postgres \<Rightarrow> string \<Rightarrow> int \<Rightarrow> db \<Rightarrow> (error + User) \<times> db" where
  "insert_user pg name num d =
     (if fails pg InsertUser then (Inl OperationalError, d)
      else if \<not> accepts_text pg name \<or> \<not> in_int4 num \<or> \<not> in_int4 (users_id_seq d)
      then (Inl DataError, d)
      else
        let user = \<lparr>id_user = users_id_seq d, username = name, last_msg_num = num\<rparr>;
            d1 = d\<lparr>users_id_seq := users_id_seq d + 1\<rparr>
        in if (\<exists>u \<in> set (users d). id_user u = id_user user)
              \<or> (\<exists>u \<in> set (users d). username u = name)
           then (Inl IntegrityError, d1)
           else if \<not> fits_ix_users_username pg name then (Inl ProgramLimitExceeded, d1)
           else (Inr user, d1\<lparr>users := users d @ [user]\<rparr>))"

text \<open>
  The insert flushed for \<^verbatim>\<open>Message(sender_name=..., text=..., user_msg_num=...)\<close>: the
  identifier comes from the sequence, \<^verbatim>\<open>created_at\<close> from the server default, and the
  database checks the primary key and the unique constraint \<^verbatim>\<open>uq_sender_msgnum\<close> on
  \<^verbatim>\<open>(sender_name, user_msg_num)\<close>, into whose index the name has to fit.
\<close>

definition insert_message ::
    "postgres \<Rightarrow> string \<Rightarrow> string \<Rightarrow> int \<Rightarrow> int \<Rightarrow> db \<Rightarrow> (error + Message) \<times> db" where
  "insert_message pg sender txt num now d =
     (if fails pg InsertMessage then (Inl OperationalError, d)
      else if \<not> accepts_text pg sender \<or> \<not> accepts_text pg txt \<or> \<not> in_int4 num
              \<or> \<not> in_int8 (messages_id_seq d)
      then (Inl DataError, d)
      else
        let new_message = \<lparr>message_id = messages_id_seq d, sender_name = sender,
                           text_msg = txt, created_at = now, user_msg_num = num\<rparr>;
            d1 = d\<lparr>messages_id_seq := messages_id_seq d + 1\<rparr>
        in if (\<exists>m \<in> set (messages d). message_id m = message_id new_message)
              \<or> (\<exists>m \<in> set (messages d). sender_name m = sender \<and> user_msg_num m = num)
           then (Inl IntegrityError, d1)
           else if \<not> fits_uq_sender_msgnum pg sender then (Inl ProgramLimitExceeded, d1)
           else (Inr new_message, d1\<lparr>messages := messages d @ [new_message]\<rparr>))"

text \<open>
  The update flushed for \<^verbatim>\<open>user.last_msg_num += 1\<close>: the row is addressed by its primary
  key.
\<close>

definition update_last_msg_num :: "postgres \<Rightarrow> User \<Rightarrow> int \<Rightarrow> db \<Rightarrow> (error + unit) \<times> db" where
  "update_last_msg_num pg user v d =
     (if fails pg UpdateUser then (Inl OperationalError, d)
      else if \<not> in_int4 v then (Inl DataError, d)
      else (Inr (),
            d\<lparr>users := map (\<lambda>u. if id_user u = id_user user then u\<lparr>last_msg_num := v\<rparr> else u)
                           (users d)\<rparr>))"

text \<open>
  \<^verbatim>\<open>last_10_stmt\<close>: the rows with \<^verbatim>\<open>message_id <= new_message.message_id\<close>, ordered by
  \<^verbatim>\<open>message_id\<close> descending, limited to 10.
\<close>

definition last_10_stmt :: "int \<Rightarrow> Message list \<Rightarrow> Message list" where
  "last_10_stmt new_message_id ms =
     take 10 (rev (sort_key message_id (filter (\<lambda>m. message_id m \<le> new_message_id) ms)))"

subsection \<open>The transaction and the endpoint\<close>

text \<open>
  Lines 137--141: a sender without a row gets one, with counter 0, and the flush sends
  the insert.
\<close>

definition create_user_if_none ::
    "postgres \<Rightarrow> User option \<Rightarrow> MessageRequest \<Rightarrow> db \<Rightarrow> (error + User) \<times> db" where
  "create_user_if_none pg found msg d =
     (case found of
        None \<Rightarrow> insert_user pg (sender_name_req msg) 0 d
      | Some user \<Rightarrow> (Inr user, d))"

text \<open>Lines 130--141: the select and what follows from its result.\<close>

definition find_or_create_user ::
    "postgres \<Rightarrow> MessageRequest \<Rightarrow> db \<Rightarrow> (error + User) \<times> db" where
  "find_or_create_user pg msg d =
     (case select_user_for_update pg (sender_name_req msg) d of
        Inl e \<Rightarrow> (Inl e, d)
      | Inr found \<Rightarrow> create_user_if_none pg found msg d)"

text \<open>
  Lines 144--168: the counter is incremented in memory, the flush of line 154 sends the
  insert of the message and then the update of the counter, and the window is read.
\<close>

definition add_message ::
    "postgres \<Rightarrow> User \<Rightarrow> MessageRequest \<Rightarrow> int \<Rightarrow> db
       \<Rightarrow> (error + Message \<times> Message list) \<times> db" where
  "add_message pg user msg now d1 =
     (let user_msg_counter = last_msg_num user + 1 in
      case insert_message pg (sender_name_req msg) (text_req msg) user_msg_counter now d1 of
        (Inl e, d2) \<Rightarrow> (Inl e, d2)
      | (Inr new_message, d2) \<Rightarrow>
          (case update_last_msg_num pg user user_msg_counter d2 of
             (Inl e, d3) \<Rightarrow> (Inl e, d3)
           | (Inr _, d3) \<Rightarrow>
               if fails pg SelectMessages then (Inl OperationalError, d3)
               else (Inr (new_message,
                          last_10_stmt (message_id new_message) (messages d3)), d3)))"

text \<open>
  The body of \<^verbatim>\<open>async with db.begin()\<close> in \<^verbatim>\<open>post_message\<close>. The first failing statement
  ends it; the store it returns is the state inside the transaction.
\<close>

definition post_message_tx ::
    "postgres \<Rightarrow> MessageRequest \<Rightarrow> int \<Rightarrow> db \<Rightarrow> (error + Message \<times> Message list) \<times> db" where
  "post_message_tx pg msg now d =
     (case find_or_create_user pg msg d of
        (Inl e, d1) \<Rightarrow> (Inl e, d1)
      | (Inr user, d1) \<Rightarrow> add_message pg user msg now d1)"

text \<open>
  \<^verbatim>\<open>db.begin()\<close>: when the body returns, its changes to the tables are committed; when the
  body raises or the commit fails, they are discarded and the error is raised again.
  Sequences are not transactional.
\<close>

definition rollback :: "db \<Rightarrow> db \<Rightarrow> db" where
  "rollback d d' = d\<lparr>users_id_seq := users_id_seq d', messages_id_seq := messages_id_seq d'\<rparr>"

definition db_begin ::
    "postgres \<Rightarrow> (db \<Rightarrow> (error + 'a) \<times> db) \<Rightarrow> db \<Rightarrow> (error + 'a) \<times> db" where
  "db_begin pg body d =
     (case body d of
        (Inl e, d') \<Rightarrow> (Inl e, rollback d d')
      | (Inr r, d') \<Rightarrow>
          if fails pg Commit then (Inl OperationalError, rollback d d') else (Inr r, d'))"

definition to_response :: "Message \<Rightarrow> MessageResponse" where
  "to_response m =
     \<lparr>message_id_resp = message_id m, sender_name_resp = sender_name m,
      text_resp = text_msg m, created_at_resp = created_at m,
      user_msg_num_resp = user_msg_num m\<rparr>"

definition respond ::
    "(error + Message \<times> Message list) \<times> db \<Rightarrow> (error + MessagesListResponse) \<times> db" where
  "respond outcome =
     (case outcome of
        (Inl e, d') \<Rightarrow> (Inl e, d')
      | (Inr (new_message, last_10_messages), d') \<Rightarrow>
          (Inr \<lparr>messages_resp = map to_response last_10_messages\<rparr>, d'))"

definition post_message ::
    "postgres \<Rightarrow> MessageRequest \<Rightarrow> int \<Rightarrow> db \<Rightarrow> (error + MessagesListResponse) \<times> db" where
  "post_message pg msg now d = respond (db_begin pg (post_message_tx pg msg now) d)"

text \<open>
  Modelled from the spec: the transport layer, which the source files use and do not
  contain. The spec has it reject an input with missing or malformed fields as a client
  error before any transaction is opened and without side effects; which inputs those
  are is read off \<^verbatim>\<open>MessageRequest\<close>, whose two fields are required and are strings with no
  further constraint. The body is the decoded JSON value; other fields are ignored and of
  a repeated key the last occurrence counts. A rejected body is answered with status 422
  and the handler is not called; an exception of the handler is answered with status 500.
\<close>

datatype json =
    JNull
  | JBool bool
  | JNumber int
  | JString string
  | JArray "json list"
  | JObject "(string \<times> json) list"

datatype http_error = UnprocessableEntity | InternalServerError error

definition validate_request :: "json \<Rightarrow> http_error + MessageRequest" where
  "validate_request body =
     (case body of
        JObject kvs \<Rightarrow>
          (case (map_of (rev kvs) ''sender_name'', map_of (rev kvs) ''text'') of
             (Some (JString s), Some (JString t)) \<Rightarrow>
               Inr \<lparr>sender_name_req = s, text_req = t\<rparr>
           | _ \<Rightarrow> Inl UnprocessableEntity)
      | _ \<Rightarrow> Inl UnprocessableEntity)"

definition app_post_messages ::
    "postgres \<Rightarrow> json \<Rightarrow> int \<Rightarrow> db \<Rightarrow> (http_error + MessagesListResponse) \<times> db" where
  "app_post_messages pg body now d =
     (case validate_request body of
        Inl e \<Rightarrow> (Inl e, d)
      | Inr msg \<Rightarrow>
          (case post_message pg msg now d of
             (Inl e, d') \<Rightarrow> (Inl (InternalServerError e), d')
           | (Inr r, d') \<Rightarrow> (Inr r, d')))"

subsection \<open>Two calls that overlap\<close>

text \<open>
  \<^verbatim>\<open>SELECT ... FOR UPDATE\<close> locks the rows it returns until the transaction ends. A second
  select has to wait exactly when it asks for a row that the first one returned; a
  select that returned no row holds no lock.
\<close>

definition must_wait :: "User option \<Rightarrow> User option \<Rightarrow> bool" where
  "must_wait found1 found2 =
     (case (found1, found2) of
        (Some u1, Some u2) \<Rightarrow> id_user u1 = id_user u2
      | _ \<Rightarrow> False)"

text \<open>A call from the point where its select has returned \<open>found\<close>.\<close>

definition after_select ::
    "postgres \<Rightarrow> User option \<Rightarrow> MessageRequest \<Rightarrow> int \<Rightarrow> db
       \<Rightarrow> (error + MessagesListResponse) \<times> db" where
  "after_select pg found msg now d =
     respond (db_begin pg
       (\<lambda>d0. case create_user_if_none pg found msg d0 of
                (Inl e, d1) \<Rightarrow> (Inl e, d1)
              | (Inr user, d1) \<Rightarrow> add_message pg user msg now d1) d)"

text \<open>
  Two calls whose selects both return before either call sends its next statement; then
  the first call runs to its end, then the second. The result is \<open>None\<close> when there is no
  such execution: a select fails, or the second select has to wait for the first call.
  The statements that the second call sends after its select see what the first call has
  committed, while the object \<^verbatim>\<open>user\<close> of the second call is what its select returned.
\<close>

definition overlap ::
    "postgres \<Rightarrow> MessageRequest \<Rightarrow> int \<Rightarrow> postgres \<Rightarrow> MessageRequest \<Rightarrow> int \<Rightarrow> db
       \<Rightarrow> ((error + MessagesListResponse) \<times> (error + MessagesListResponse) \<times> db) option" where
  "overlap pg1 msg1 now1 pg2 msg2 now2 d =
     (case (select_user_for_update pg1 (sender_name_req msg1) d,
            select_user_for_update pg2 (sender_name_req msg2) d) of
        (Inr found1, Inr found2) \<Rightarrow>
          if must_wait found1 found2 then None
          else (case after_select pg1 found1 msg1 now1 d of
                  (r1, d1) \<Rightarrow>
                    (case after_select pg2 found2 msg2 now2 d1 of
                       (r2, d2) \<Rightarrow> Some (r1, r2, d2)))
      | _ \<Rightarrow> None)"

subsection \<open>Observations on the store\<close>

text \<open>
  The sequence numbers stored for a sender, in the order of insertion, and the counters
  stored under a sender's name (at most one when \<^verbatim>\<open>username\<close> is unique).
\<close>

definition user_msg_nums :: "string \<Rightarrow> db \<Rightarrow> int list" where
  "user_msg_nums S d = map user_msg_num (filter (\<lambda>m. sender_name m = S) (messages d))"

definition last_msg_nums :: "string \<Rightarrow> db \<Rightarrow> int list" where
  "last_msg_nums S d = map last_msg_num (filter (\<lambda>u. username u = S) (users d))"

text \<open>
  The counter of a sender: the stored \<^verbatim>\<open>last_msg_num\<close>, and 0 for a sender without a row.
\<close>

definition counter :: "string \<Rightarrow> db \<Rightarrow> int" where
  "counter S d = (case last_msg_nums S d of [] \<Rightarrow> 0 | c # _ \<Rightarrow> c)"

text \<open>
  A store is consistent when identifiers and names of users are unique, every counter is
  at least 1 and the sequence numbers of its sender are \<open>1, \<dots>, last_msg_num\<close>, and every
  message has a sender with a row in \<^verbatim>\<open>users\<close>.
\<close>

definition consistent :: "db \<Rightarrow> bool" where
  "consistent d \<longleftrightarrow>
     distinct (map id_user (users d)) \<and>
     distinct (map username (users d)) \<and>
     (\<forall>u \<in> set (users d). 1 \<le> last_msg_num u
        \<and> user_msg_nums (username u) d = [1..last_msg_num u]) \<and>
     (\<forall>m \<in> set (messages d). \<exists>u \<in> set (users d). username u = sender_name m)"

text \<open>
  A sequential run of requests, each with the behaviour of the database while it is
  served and the time at which it is served, and the number of requests of a sender that
  the run accepts (answers without an error).
\<close>

fun run :: "(postgres \<times> MessageRequest \<times> int) list \<Rightarrow> db \<Rightarrow> db" where
  "run [] d = d"
| "run ((pg, msg, now) # rs) d = run rs (snd (post_message pg msg now d))"

fun accepted :: "string \<Rightarrow> (postgres \<times> MessageRequest \<times> int) list \<Rightarrow> db \<Rightarrow> nat" where
  "accepted S [] d = 0"
| "accepted S ((pg, msg, now) # rs) d =
     (case post_message pg msg now d of
        (Inl e, d') \<Rightarrow> accepted S rs d'
      | (Inr r, d') \<Rightarrow> (if sender_name_req msg = S then 1 else 0) + accepted S rs d')"

subsection \<open>Examples\<close>

text \<open>
  A server that refuses the strings containing the character NUL, takes names of up to
  2000 characters into its indexes, and fails no statement; and the same server failing
  one statement of the call.
\<close>

definition pg_ok :: postgres where
  "pg_ok = \<lparr>accepts_text = (\<lambda>s. CHR 0x00 \<notin> set s),
            fits_ix_users_username = (\<lambda>s. length s \<le> 2000),
            fits_uq_sender_msgnum = (\<lambda>s. length s \<le> 2000),
            fails = (\<lambda>s. False)\<rparr>"

definition pg_failing :: "stmt \<Rightarrow> postgres" where
  "pg_failing s = pg_ok\<lparr>fails := (\<lambda>s'. s' = s)\<rparr>"

text \<open>
  The store after sender Bob has sent \<open>n\<close> messages (for \<open>n \<ge> 1\<close>), the \<open>i\<close>-th at time \<open>i\<close>.
\<close>

definition bob_msg :: "int \<Rightarrow> Message" where
  "bob_msg i = \<lparr>message_id = i, sender_name = ''Bob'', text_msg = ''x'', created_at = i,
                user_msg_num = i\<rparr>"

definition bob_db :: "int \<Rightarrow> db" where
  "bob_db n = \<lparr>users = [\<lparr>id_user = 1, username = ''Bob'', last_msg_num = n\<rparr>],
               messages = map bob_msg [1..n], users_id_seq = 2, messages_id_seq = n + 1\<rparr>"

text \<open>Three requests, two of them from Bob.\<close>

definition three_requests :: "(postgres \<times> MessageRequest \<times> int) list" where
  "three_requests = [(pg_ok, \<lparr>sender_name_req = ''Bob'', text_req = ''x''\<rparr>, 1),
                     (pg_ok, \<lparr>sender_name_req = ''Al'', text_req = ''a''\<rparr>, 2),
                     (pg_ok, \<lparr>sender_name_req = ''Bob'', text_req = ''y''\<rparr>, 3)]"

text \<open>
  A store in which a message of Eve carries sequence number 1 although Eve has no row in
  \<^verbatim>\<open>users\<close>: the counters and the messages disagree.
\<close>

definition orphan_db :: db where
  "orphan_db = \<lparr>users = [],
                messages = [\<lparr>message_id = 1, sender_name = ''Eve'', text_msg = ''z'',
                             created_at = 0, user_msg_num = 1\<rparr>],
                users_id_seq = 1, messages_id_seq = 2\<rparr>"

section \<open>Properties of the statements\<close>

lemma select_user_for_update_Inr:
  assumes "select_user_for_update pg name d = Inr found"
  shows "filter (\<lambda>u. username u = name) (users d) = (case found of None \<Rightarrow> [] | Some u \<Rightarrow> [u])"
    and "accepts_text pg name" and "\<not> fails pg SelectUser"
  using assms by (auto simp: select_user_for_update_def split: if_splits list.splits)

lemma select_user_for_update_None:
  assumes "filter (\<lambda>u. username u = name) (users d) = []"
    and "accepts_text pg name" and "\<not> fails pg SelectUser"
  shows "select_user_for_update pg name d = Inr None"
  using assms by (simp add: select_user_for_update_def)

lemma select_user_for_update_Some:
  assumes "filter (\<lambda>u. username u = name) (users d) = [u]"
    and "accepts_text pg name" and "\<not> fails pg SelectUser"
  shows "select_user_for_update pg name d = Inr (Some u)"
  using assms by (simp add: select_user_for_update_def)

lemma insert_user_Inr:
  assumes "insert_user pg name num d = (Inr user, d1)"
  shows "user = \<lparr>id_user = users_id_seq d, username = name, last_msg_num = num\<rparr>"
    and "d1 = d\<lparr>users_id_seq := users_id_seq d + 1, users := users d @ [user]\<rparr>"
    and "\<forall>u \<in> set (users d). id_user u \<noteq> users_id_seq d"
    and "\<forall>u \<in> set (users d). username u \<noteq> name"
    and "in_int4 num" and "in_int4 (users_id_seq d)"
  using assms by (auto simp: insert_user_def Let_def split: if_splits)

lemma insert_user_Inl:
  assumes "insert_user pg name num d = (Inl e, d1)"
  shows "users d1 = users d" and "messages d1 = messages d"
  using assms by (auto simp: insert_user_def Let_def split: if_splits)

lemma update_last_msg_num_Inr:
  assumes "update_last_msg_num pg user v d = (Inr x, d1)"
  shows "d1 = d\<lparr>users := map (\<lambda>u. if id_user u = id_user user then u\<lparr>last_msg_num := v\<rparr> else u) (users d)\<rparr>"
    and "in_int4 v"
  using assms by (auto simp: update_last_msg_num_def split: if_splits)

lemma insert_message_Inr:
  assumes "insert_message pg sender txt num now d = (Inr m, d1)"
  shows "m = \<lparr>message_id = messages_id_seq d, sender_name = sender, text_msg = txt,
              created_at = now, user_msg_num = num\<rparr>"
    and "d1 = d\<lparr>messages_id_seq := messages_id_seq d + 1, messages := messages d @ [m]\<rparr>"
    and "\<forall>x \<in> set (messages d). message_id x \<noteq> messages_id_seq d"
    and "\<forall>x \<in> set (messages d). \<not> (sender_name x = sender \<and> user_msg_num x = num)"
    and "in_int4 num" and "in_int8 (messages_id_seq d)"
  using assms by (auto simp: insert_message_def Let_def split: if_splits)

lemma create_user_if_none_Inr:
  assumes "create_user_if_none pg found msg d = (Inr user, d1)"
  shows "(found = Some user \<and> d1 = d)
       \<or> (found = None \<and> insert_user pg (sender_name_req msg) 0 d = (Inr user, d1))"
  using assms by (auto simp: create_user_if_none_def split: option.splits)

lemma find_or_create_user_Inr:
  assumes "find_or_create_user pg msg d = (Inr user, d1)"
  shows "\<exists>found. select_user_for_update pg (sender_name_req msg) d = Inr found
           \<and> create_user_if_none pg found msg d = (Inr user, d1)"
  using assms by (auto simp: find_or_create_user_def split: sum.splits)

lemma add_message_Inr:
  assumes "add_message pg user msg now d1 = (Inr (new_message, window), d')"
  shows "\<exists>d2 x. insert_message pg (sender_name_req msg) (text_req msg) (last_msg_num user + 1)
                    now d1 = (Inr new_message, d2)
           \<and> update_last_msg_num pg user (last_msg_num user + 1) d2 = (Inr x, d')
           \<and> window = last_10_stmt (message_id new_message) (messages d')"
  using assms unfolding add_message_def
  by (auto simp: Let_def split: sum.splits prod.splits if_splits)

lemma post_message_tx_Inr:
  assumes "post_message_tx pg msg now d = (Inr (new_message, window), d')"
  shows "\<exists>user d1. find_or_create_user pg msg d = (Inr user, d1)
           \<and> add_message pg user msg now d1 = (Inr (new_message, window), d')"
  using assms unfolding post_message_tx_def
  by (auto split: sum.splits prod.splits)

text \<open>
  What a call has done once its select has returned \<open>found\<close> and the rest has succeeded.
\<close>

lemma rest_effect:
  assumes c: "create_user_if_none pg found msg d = (Inr user, d1)"
    and a: "add_message pg user msg now d1 = (Inr (new_message, window), d')"
  shows "messages d' = messages d @ [new_message]"
    and "message_id new_message = messages_id_seq d"
    and "sender_name new_message = sender_name_req msg"
    and "text_msg new_message = text_req msg"
    and "created_at new_message = now"
    and "\<forall>x \<in> set (messages d). message_id x \<noteq> message_id new_message"
    and "\<forall>x \<in> set (messages d). \<not> (sender_name x = sender_name_req msg
            \<and> user_msg_num x = user_msg_num new_message)"
    and "window = last_10_stmt (message_id new_message) (messages d')"
    and "messages_id_seq d' = messages_id_seq d + 1"
    and "in_int4 (user_msg_num new_message)"
    and "(\<exists>u. found = Some u
            \<and> user_msg_num new_message = last_msg_num u + 1
            \<and> users d' = map (\<lambda>v. if id_user v = id_user u
                                     then v\<lparr>last_msg_num := last_msg_num u + 1\<rparr> else v) (users d)
            \<and> users_id_seq d' = users_id_seq d)
         \<or> (found = None
            \<and> user_msg_num new_message = 1
            \<and> (\<forall>u \<in> set (users d). id_user u \<noteq> users_id_seq d)
            \<and> (\<forall>u \<in> set (users d). username u \<noteq> sender_name_req msg)
            \<and> users d' = users d @ [\<lparr>id_user = users_id_seq d,
                   username = sender_name_req msg, last_msg_num = 1\<rparr>]
            \<and> users_id_seq d' = users_id_seq d + 1)"
proof -
  from add_message_Inr [OF a] obtain d2 x where
    ins: "insert_message pg (sender_name_req msg) (text_req msg) (last_msg_num user + 1)
            now d1 = (Inr new_message, d2)"
    and upd: "update_last_msg_num pg user (last_msg_num user + 1) d2 = (Inr x, d')"
    and win: "window = last_10_stmt (message_id new_message) (messages d')"
    by blast
  note u = update_last_msg_num_Inr [OF upd]
  note i = insert_message_Inr [OF ins]
  have m1: "messages d1 = messages d" and s1: "messages_id_seq d1 = messages_id_seq d"
    using create_user_if_none_Inr [OF c] by (auto dest: insert_user_Inr(2))
  show "messages d' = messages d @ [new_message]" using i(2) u(1) m1 by simp
  show "message_id new_message = messages_id_seq d" using i(1) s1 by simp
  show "sender_name new_message = sender_name_req msg" using i(1) by simp
  show "text_msg new_message = text_req msg" using i(1) by simp
  show "created_at new_message = now" using i(1) by simp
  show "\<forall>x \<in> set (messages d). message_id x \<noteq> message_id new_message"
    using i(1,3) m1 s1 by simp
  show "\<forall>x \<in> set (messages d). \<not> (sender_name x = sender_name_req msg
            \<and> user_msg_num x = user_msg_num new_message)"
    using i(1,4) m1 by simp
  show "window = last_10_stmt (message_id new_message) (messages d')" by (rule win)
  show "messages_id_seq d' = messages_id_seq d + 1" using i(2) u(1) s1 by simp
  show "in_int4 (user_msg_num new_message)" using i(1,5) by simp
  from create_user_if_none_Inr [OF c]
  show "(\<exists>u. found = Some u
            \<and> user_msg_num new_message = last_msg_num u + 1
            \<and> users d' = map (\<lambda>v. if id_user v = id_user u
                                     then v\<lparr>last_msg_num := last_msg_num u + 1\<rparr> else v) (users d)
            \<and> users_id_seq d' = users_id_seq d)
         \<or> (found = None
            \<and> user_msg_num new_message = 1
            \<and> (\<forall>u \<in> set (users d). id_user u \<noteq> users_id_seq d)
            \<and> (\<forall>u \<in> set (users d). username u \<noteq> sender_name_req msg)
            \<and> users d' = users d @ [\<lparr>id_user = users_id_seq d,
                   username = sender_name_req msg, last_msg_num = 1\<rparr>]
            \<and> users_id_seq d' = users_id_seq d + 1)"
  proof
    assume k: "found = Some user \<and> d1 = d"
    then show ?thesis using u(1) i(1,2) by simp
  next
    assume k: "found = None \<and> insert_user pg (sender_name_req msg) 0 d = (Inr user, d1)"
    note n = insert_user_Inr [OF conjunct2 [OF k]]
    have "map (\<lambda>u. if id_user u = id_user user then u\<lparr>last_msg_num := last_msg_num user + 1\<rparr> else u)
            (users d) = users d"
      using n(1,3) by (simp add: map_idI)
    then have "users d' = users d @ [\<lparr>id_user = users_id_seq d,
                   username = sender_name_req msg, last_msg_num = 1\<rparr>]"
      using n(1,2) u(1) i(2) by simp
    then show ?thesis using k n(1,2,3,4) u(1) i(1,2) by simp
  qed
qed

lemma post_message_tx_effect:
  assumes "post_message_tx pg msg now d = (Inr (new_message, window), d')"
  shows "messages d' = messages d @ [new_message]"
    and "message_id new_message = messages_id_seq d"
    and "sender_name new_message = sender_name_req msg"
    and "text_msg new_message = text_req msg"
    and "created_at new_message = now"
    and "\<forall>x \<in> set (messages d). message_id x \<noteq> message_id new_message"
    and "\<forall>x \<in> set (messages d). \<not> (sender_name x = sender_name_req msg
            \<and> user_msg_num x = user_msg_num new_message)"
    and "window = last_10_stmt (message_id new_message) (messages d')"
    and "messages_id_seq d' = messages_id_seq d + 1"
    and "in_int4 (user_msg_num new_message)"
    and "(\<exists>u. filter (\<lambda>u. username u = sender_name_req msg) (users d) = [u]
            \<and> user_msg_num new_message = last_msg_num u + 1
            \<and> users d' = map (\<lambda>v. if id_user v = id_user u
                                     then v\<lparr>last_msg_num := last_msg_num u + 1\<rparr> else v) (users d)
            \<and> users_id_seq d' = users_id_seq d)
         \<or> (filter (\<lambda>u. username u = sender_name_req msg) (users d) = []
            \<and> user_msg_num new_message = 1
            \<and> (\<forall>u \<in> set (users d). id_user u \<noteq> users_id_seq d)
            \<and> users d' = users d @ [\<lparr>id_user = users_id_seq d,
                   username = sender_name_req msg, last_msg_num = 1\<rparr>]
            \<and> users_id_seq d' = users_id_seq d + 1)"
proof -
  from post_message_tx_Inr [OF assms] obtain user d1 where
    fc: "find_or_create_user pg msg d = (Inr user, d1)"
    and a: "add_message pg user msg now d1 = (Inr (new_message, window), d')" by blast
  from find_or_create_user_Inr [OF fc] obtain found where
    sel: "select_user_for_update pg (sender_name_req msg) d = Inr found"
    and c: "create_user_if_none pg found msg d = (Inr user, d1)" by blast
  note e = rest_effect [OF c a]
  note s = select_user_for_update_Inr(1) [OF sel]
  show "messages d' = messages d @ [new_message]" by (rule e(1))
  show "message_id new_message = messages_id_seq d" by (rule e(2))
  show "sender_name new_message = sender_name_req msg" by (rule e(3))
  show "text_msg new_message = text_req msg" by (rule e(4))
  show "created_at new_message = now" by (rule e(5))
  show "\<forall>x \<in> set (messages d). message_id x \<noteq> message_id new_message" by (rule e(6))
  show "\<forall>x \<in> set (messages d). \<not> (sender_name x = sender_name_req msg
            \<and> user_msg_num x = user_msg_num new_message)" by (rule e(7))
  show "window = last_10_stmt (message_id new_message) (messages d')" by (rule e(8))
  show "messages_id_seq d' = messages_id_seq d + 1" by (rule e(9))
  show "in_int4 (user_msg_num new_message)" by (rule e(10))
  from e(11) s
  show "(\<exists>u. filter (\<lambda>u. username u = sender_name_req msg) (users d) = [u]
            \<and> user_msg_num new_message = last_msg_num u + 1
            \<and> users d' = map (\<lambda>v. if id_user v = id_user u
                                     then v\<lparr>last_msg_num := last_msg_num u + 1\<rparr> else v) (users d)
            \<and> users_id_seq d' = users_id_seq d)
         \<or> (filter (\<lambda>u. username u = sender_name_req msg) (users d) = []
            \<and> user_msg_num new_message = 1
            \<and> (\<forall>u \<in> set (users d). id_user u \<noteq> users_id_seq d)
            \<and> users d' = users d @ [\<lparr>id_user = users_id_seq d,
                   username = sender_name_req msg, last_msg_num = 1\<rparr>]
            \<and> users_id_seq d' = users_id_seq d + 1)"
    by auto
qed

text \<open>
  Whatever the body of the transaction does, a failure leaves both tables as they were
  before \<^verbatim>\<open>db.begin()\<close>.
\<close>

lemma db_begin_Inl:
  assumes "db_begin pg body d = (Inl e, d')"
  shows "users d' = users d" and "messages d' = messages d"
  using assms
  by (auto simp: db_begin_def rollback_def split: sum.splits prod.splits if_splits)

lemma db_begin_Inr:
  assumes "db_begin pg body d = (Inr r, d')"
  shows "body d = (Inr r, d')" and "\<not> fails pg Commit"
  using assms
  by (auto simp: db_begin_def split: sum.splits prod.splits if_splits)

lemma respond_Inr:
  assumes "respond outcome = (Inr r, d')"
  shows "\<exists>new_message window. outcome = (Inr (new_message, window), d')
           \<and> r = \<lparr>messages_resp = map to_response window\<rparr>"
  using assms by (auto simp: respond_def split: sum.splits prod.splits)

lemma respond_Inl:
  assumes "respond outcome = (Inl e, d')"
  shows "outcome = (Inl e, d')"
  using assms by (auto simp: respond_def split: sum.splits prod.splits)

lemma post_message_Inr:
  assumes "post_message pg msg now d = (Inr r, d')"
  shows "\<exists>new_message window. post_message_tx pg msg now d = (Inr (new_message, window), d')
           \<and> r = \<lparr>messages_resp = map to_response window\<rparr>"
proof -
  from respond_Inr [OF assms [unfolded post_message_def]] obtain new_message window where
    b: "db_begin pg (post_message_tx pg msg now) d = (Inr (new_message, window), d')"
    and r: "r = \<lparr>messages_resp = map to_response window\<rparr>" by blast
  from db_begin_Inr(1) [OF b] r show ?thesis by blast
qed

lemma post_message_Inl:
  assumes "post_message pg msg now d = (Inl e, d')"
  shows "users d' = users d" and "messages d' = messages d"
proof -
  note b = respond_Inl [OF assms [unfolded post_message_def]]
  show "users d' = users d" using b by (rule db_begin_Inl(1))
  show "messages d' = messages d" using b by (rule db_begin_Inl(2))
qed

section \<open>Properties of the recent-window query\<close>

lemma length_last_10_stmt:
  "length (last_10_stmt n ms) = min 10 (length (filter (\<lambda>m. message_id m \<le> n) ms))"
  by (simp add: last_10_stmt_def)

lemma set_last_10_stmt:
  "set (last_10_stmt n ms) \<subseteq> {m \<in> set ms. message_id m \<le> n}"
proof
  fix x assume "x \<in> set (last_10_stmt n ms)"
  then have "x \<in> set (rev (sort_key message_id (filter (\<lambda>m. message_id m \<le> n) ms)))"
    unfolding last_10_stmt_def by (rule in_set_takeD)
  then show "x \<in> {m \<in> set ms. message_id m \<le> n}" by simp
qed

lemma sorted_desc_take:
  "sorted_wrt P xs \<Longrightarrow> sorted_wrt P (take k xs)"
  by (metis append_take_drop_id sorted_wrt_append)

lemma desc_last_10_stmt:
  "sorted_wrt (\<lambda>a b. a \<ge> b) (map message_id (last_10_stmt n ms))"
proof -
  let ?ys = "sort_key message_id (filter (\<lambda>m. message_id m \<le> n) ms)"
  have "sorted (map message_id ?ys)" by simp
  then have "sorted_wrt (\<lambda>a b. a \<ge> b) (rev (map message_id ?ys))"
    by (simp add: sorted_wrt_rev)
  then have "sorted_wrt (\<lambda>a b. a \<ge> b) (take 10 (rev (map message_id ?ys)))"
    by (rule sorted_desc_take)
  then show ?thesis by (simp add: last_10_stmt_def take_map rev_map)
qed

lemma mset_last_10_stmt:
  assumes "length (filter (\<lambda>m. message_id m \<le> n) ms) \<le> 10"
  shows "mset (last_10_stmt n ms) = mset (filter (\<lambda>m. message_id m \<le> n) ms)"
  using assms by (simp add: last_10_stmt_def)

lemma strict_desc_last_10_stmt:
  assumes "distinct (map message_id ms)"
  shows "sorted_wrt (\<lambda>a b. a > b) (map message_id (last_10_stmt n ms))"
proof -
  let ?ys = "sort_key message_id (filter (\<lambda>m. message_id m \<le> n) ms)"
  have "distinct (map message_id (filter (\<lambda>m. message_id m \<le> n) ms))"
    using assms by (rule distinct_map_filter)
  then have "distinct (map message_id ?ys)"
    by (simp add: distinct_map)
  moreover have "sorted (map message_id ?ys)" by simp
  ultimately have "sorted_wrt (\<lambda>a b. a < b) (map message_id ?ys)"
    by (simp add: strict_sorted_iff)
  then have "sorted_wrt (\<lambda>a b. a > b) (rev (map message_id ?ys))"
    by (simp add: sorted_wrt_rev)
  then have "sorted_wrt (\<lambda>a b. a > b) (take 10 (rev (map message_id ?ys)))"
    by (rule sorted_desc_take)
  then show ?thesis by (simp add: last_10_stmt_def take_map rev_map)
qed

lemma sort_key_perm_unique:
  assumes "mset xs = mset ys" and "distinct (map f xs)"
  shows "sort_key f xs = sort_key f ys"
proof -
  have inj: "inj_on f (set xs)" and dx: "distinct xs"
    using assms(2) by (auto simp: distinct_map)
  have sety: "set ys = set xs" using assms(1) by (metis set_mset_mset)
  have dy: "distinct ys" using dx assms(1) by (metis mset_eq_imp_distinct_iff)
  have "map f (sort_key f xs) = map f (sort_key f ys)"
  proof (rule sorted_distinct_set_unique)
    show "distinct (map f (sort_key f xs))" using inj dx by (simp add: distinct_map)
    show "distinct (map f (sort_key f ys))" using inj dy sety by (simp add: distinct_map)
    show "set (map f (sort_key f xs)) = set (map f (sort_key f ys))" using sety by simp
  qed simp_all
  moreover have "inj_on f (set (sort_key f xs) \<union> set (sort_key f ys))"
    using inj sety by simp
  ultimately show ?thesis by (rule map_inj_on)
qed

lemma last_10_stmt_perm:
  assumes "mset ms = mset ms'" and "distinct (map message_id ms)"
  shows "last_10_stmt n ms = last_10_stmt n ms'"
proof -
  let ?P = "\<lambda>m. message_id m \<le> n"
  have "mset (filter ?P ms) = mset (filter ?P ms')" using assms(1) by (metis mset_filter)
  moreover have "distinct (map message_id (filter ?P ms))"
    using assms(2) by (rule distinct_map_filter)
  ultimately have "sort_key message_id (filter ?P ms) = sort_key message_id (filter ?P ms')"
    by (rule sort_key_perm_unique)
  then show ?thesis by (simp add: last_10_stmt_def)
qed

lemma sorted_key_le_last:
  "sorted (map f ys) \<Longrightarrow> x \<in> set ys \<Longrightarrow> f x \<le> f (last ys)"
  by (induction ys) auto

lemma hd_last_10_stmt:
  assumes "m \<in> set ms" and "message_id m = n"
    and "\<forall>x \<in> set ms. message_id x = n \<longrightarrow> x = m"
  shows "last_10_stmt n ms \<noteq> [] \<and> hd (last_10_stmt n ms) = m"
proof -
  let ?ys = "sort_key message_id (filter (\<lambda>m. message_id m \<le> n) ms)"
  have mem: "m \<in> set ?ys" using assms(1,2) by simp
  then have ne: "?ys \<noteq> []" by (metis empty_iff empty_set)
  have srt: "sorted (map message_id ?ys)" by simp
  have "last ?ys \<in> set ?ys" using ne by (rule last_in_set)
  then have le: "message_id (last ?ys) \<le> n" and in_ms: "last ?ys \<in> set ms" by simp_all
  have "message_id m \<le> message_id (last ?ys)"
    using srt mem by (rule sorted_key_le_last)
  with le assms(2) have "message_id (last ?ys) = n" by simp
  with in_ms assms(3) have "last ?ys = m" by blast
  then show ?thesis using ne by (simp add: last_10_stmt_def hd_rev)
qed

section \<open>The result of a successful transaction\<close>

lemma filter_username_bump:
  "filter (\<lambda>u. username u = S) (map (\<lambda>v. if id_user v = i then v\<lparr>last_msg_num := c\<rparr> else v) us)
     = map (\<lambda>v. if id_user v = i then v\<lparr>last_msg_num := c\<rparr> else v) (filter (\<lambda>u. username u = S) us)"
  by (induction us) auto

lemma post_message_tx_counter:
  assumes "post_message_tx pg msg now d = (Inr (new_message, window), d')"
  shows "last_msg_nums (sender_name_req msg) d' = [user_msg_num new_message]"
    and "user_msg_num new_message
           = (case last_msg_nums (sender_name_req msg) d of [] \<Rightarrow> 1 | c # _ \<Rightarrow> c + 1)"
  using post_message_tx_effect(11) [OF assms]
  by (auto simp: last_msg_nums_def filter_username_bump)

lemma post_message_tx_head:
  assumes "post_message_tx pg msg now d = (Inr (new_message, window), d')"
  shows "window \<noteq> [] \<and> hd window = new_message"
proof -
  note e = post_message_tx_effect [OF assms]
  have "new_message \<in> set (messages d')" using e(1) by simp
  moreover have "\<forall>x \<in> set (messages d'). message_id x = message_id new_message \<longrightarrow> x = new_message"
    using e(1,6) by auto
  ultimately show ?thesis
    unfolding e(8) by (intro hd_last_10_stmt) simp_all
qed

section \<open>The invariant of the store\<close>

lemma user_msg_nums_append:
  assumes "messages d' = messages d @ [m]"
  shows "user_msg_nums S d'
           = user_msg_nums S d @ (if sender_name m = S then [user_msg_num m] else [])"
  using assms by (simp add: user_msg_nums_def)

lemma filter_key_distinct:
  "distinct (map f xs) \<Longrightarrow> length (filter (\<lambda>x. f x = a) xs) \<le> 1"
proof (induction xs)
  case Nil
  then show ?case by simp
next
  case (Cons x xs)
  show ?case
  proof (cases "f x = a")
    case True
    with Cons.prems have "\<forall>y \<in> set xs. f y \<noteq> a" by (force simp: image_iff)
    then have "filter (\<lambda>x. f x = a) xs = []" by (simp add: filter_empty_conv)
    with True show ?thesis by simp
  next
    case False
    with Cons show ?thesis by simp
  qed
qed

lemma consistent_tables:
  assumes "users d' = users d" and "messages d' = messages d"
  shows "consistent d' = consistent d"
  using assms by (simp add: consistent_def user_msg_nums_def)

lemma counter_tables:
  assumes "users d' = users d"
  shows "counter S d' = counter S d"
  using assms by (simp add: counter_def last_msg_nums_def)

lemma consistent_observed:
  assumes "consistent d"
  shows "user_msg_nums S d = [1..counter S d]"
    and "last_msg_nums S d = (if counter S d = 0 then [] else [counter S d])"
proof -
  have du: "distinct (map username (users d))"
    and rows: "\<forall>u \<in> set (users d). 1 \<le> last_msg_num u
        \<and> user_msg_nums (username u) d = [1..last_msg_num u]"
    and owner: "\<forall>m \<in> set (messages d). \<exists>u \<in> set (users d). username u = sender_name m"
    using assms by (simp_all add: consistent_def)
  let ?us = "filter (\<lambda>u. username u = S) (users d)"
  have len: "length ?us \<le> 1" using du by (rule filter_key_distinct)
  show "user_msg_nums S d = [1..counter S d]"
   and "last_msg_nums S d = (if counter S d = 0 then [] else [counter S d])"
  proof (atomize (full), cases ?us)
    case Nil
    then have no_row: "\<forall>u \<in> set (users d). username u \<noteq> S"
      by (simp add: filter_empty_conv)
    with owner have "\<forall>m \<in> set (messages d). sender_name m \<noteq> S" by metis
    then have "user_msg_nums S d = []"
      by (simp add: user_msg_nums_def filter_empty_conv)
    then show "user_msg_nums S d = [1..counter S d]
       \<and> last_msg_nums S d = (if counter S d = 0 then [] else [counter S d])"
      using Nil by (simp add: counter_def last_msg_nums_def)
  next
    case (Cons u rest)
    with len have us: "?us = [u]" by simp
    then have "u \<in> set ?us" by simp
    then have "u \<in> set (users d)" and "username u = S" by simp_all
    with rows have "1 \<le> last_msg_num u" and "user_msg_nums S d = [1..last_msg_num u]" by auto
    then show "user_msg_nums S d = [1..counter S d]
       \<and> last_msg_nums S d = (if counter S d = 0 then [] else [counter S d])"
      using us by (simp add: counter_def last_msg_nums_def)
  qed
qed


lemma post_message_tx_consistent:
  assumes c: "consistent d"
    and tx: "post_message_tx pg msg now d = (Inr (new_message, window), d')"
  shows "consistent d'"
    and "S \<noteq> sender_name_req msg \<Longrightarrow> last_msg_nums S d' = last_msg_nums S d"
proof -
  let ?S0 = "sender_name_req msg"
  note e = post_message_tx_effect [OF tx]
  have di: "distinct (map id_user (users d))"
    and du: "distinct (map username (users d))"
    and rows: "\<forall>u \<in> set (users d). 1 \<le> last_msg_num u
        \<and> user_msg_nums (username u) d = [1..last_msg_num u]"
    and owner: "\<forall>m \<in> set (messages d). \<exists>u \<in> set (users d). username u = sender_name m"
    using c by (simp_all add: consistent_def)
  have nums: "user_msg_nums S d'
      = user_msg_nums S d @ (if S = ?S0 then [user_msg_num new_message] else [])" for S
    using user_msg_nums_append [OF e(1), of S] e(3) by auto
  from e(11) show "consistent d'"
    and "S \<noteq> sender_name_req msg \<Longrightarrow> last_msg_nums S d' = last_msg_nums S d"
  proof (atomize (full), elim disjE exE conjE)
    fix u
    assume f: "filter (\<lambda>u. username u = ?S0) (users d) = [u]"
      and n: "user_msg_num new_message = last_msg_num u + 1"
      and us: "users d' = map (\<lambda>v. if id_user v = id_user u
                 then v\<lparr>last_msg_num := last_msg_num u + 1\<rparr> else v) (users d)"
    let ?b = "\<lambda>v. if id_user v = id_user u then v\<lparr>last_msg_num := last_msg_num u + 1\<rparr> else v"
    from f have "u \<in> set (filter (\<lambda>u. username u = ?S0) (users d))" by simp
    then have u_in: "u \<in> set (users d)" and u_name: "username u = ?S0" by simp_all
    have only_u: "v = u" if "v \<in> set (users d)" "id_user v = id_user u" for v
      using di that u_in by (meson distinct_map inj_onD)
    have only_name: "v = u" if "v \<in> set (users d)" "username v = ?S0" for v
    proof -
      from that have "v \<in> set (filter (\<lambda>u. username u = ?S0) (users d))" by simp
      with f show ?thesis by simp
    qed
    have ids: "map id_user (users d') = map id_user (users d)"
      unfolding us by (induction "users d") auto
    have names: "map username (users d') = map username (users d)"
      unfolding us by (simp add: comp_def if_distrib cong: if_cong)
    have "\<forall>v' \<in> set (users d'). 1 \<le> last_msg_num v'
        \<and> user_msg_nums (username v') d' = [1..last_msg_num v']"
    proof
      fix v' assume "v' \<in> set (users d')"
      then obtain v where v: "v \<in> set (users d)" "v' = ?b v" unfolding us by auto
      from rows v(1) have rv: "1 \<le> last_msg_num v"
        "user_msg_nums (username v) d = [1..last_msg_num v]" by auto
      show "1 \<le> last_msg_num v' \<and> user_msg_nums (username v') d' = [1..last_msg_num v']"
      proof (cases "id_user v = id_user u")
        case True
        with v(1) have "v = u" by (rule only_u)
        then show ?thesis using v(2) rv u_name n nums [of ?S0]
          by (simp add: upto_rec2)
      next
        case False
        then have "v \<noteq> u" by auto
        with only_name v(1) have "username v \<noteq> ?S0" by auto
        then show ?thesis using False v(2) rv nums [of "username v"] by simp
      qed
    qed
    moreover have "\<forall>m \<in> set (messages d'). \<exists>v \<in> set (users d'). username v = sender_name m"
    proof
      fix m assume "m \<in> set (messages d')"
      then have "sender_name m \<in> set (map username (users d))"
        using e(1,3) owner u_in u_name by (force simp: image_iff)
      then show "\<exists>v \<in> set (users d'). username v = sender_name m"
        unfolding names [symmetric] by auto
    qed
    moreover have "last_msg_nums S d' = last_msg_nums S d" if "S \<noteq> ?S0"
    proof -
      have "filter (\<lambda>v. username v = S) (users d') = map ?b (filter (\<lambda>v. username v = S) (users d))"
        unfolding us by (rule filter_username_bump)
      also have "\<dots> = filter (\<lambda>v. username v = S) (users d)"
      proof (rule map_idI)
        fix v assume "v \<in> set (filter (\<lambda>v. username v = S) (users d))"
        then have "v \<in> set (users d)" "username v = S" by simp_all
        with that u_name only_u [of v] show "?b v = v" by auto
      qed
      finally show ?thesis by (simp add: last_msg_nums_def)
    qed
    ultimately show "consistent d' \<and> (S \<noteq> ?S0 \<longrightarrow> last_msg_nums S d' = last_msg_nums S d)"
      using di du ids names by (simp add: consistent_def)
  next
    assume f: "filter (\<lambda>u. username u = ?S0) (users d) = []"
      and n: "user_msg_num new_message = 1"
      and fresh: "\<forall>u \<in> set (users d). id_user u \<noteq> users_id_seq d"
      and us: "users d' = users d @ [\<lparr>id_user = users_id_seq d, username = ?S0, last_msg_num = 1\<rparr>]"
    from f have no_row: "\<forall>u \<in> set (users d). username u \<noteq> ?S0"
      by (simp add: filter_empty_conv)
    with owner have "\<forall>m \<in> set (messages d). sender_name m \<noteq> ?S0" by metis
    then have none: "user_msg_nums ?S0 d = []"
      by (simp add: user_msg_nums_def filter_empty_conv)
    have "\<forall>v \<in> set (users d'). 1 \<le> last_msg_num v
        \<and> user_msg_nums (username v) d' = [1..last_msg_num v]"
      unfolding us using rows no_row none n nums by auto
    moreover have "\<forall>m \<in> set (messages d'). \<exists>v \<in> set (users d'). username v = sender_name m"
      unfolding us using e(1,3) owner by auto
    moreover have "distinct (map id_user (users d'))"
      unfolding us using di fresh by auto
    moreover have "distinct (map username (users d'))"
      unfolding us using du no_row by auto
    moreover have "last_msg_nums S d' = last_msg_nums S d" if "S \<noteq> ?S0"
      using that us by (simp add: last_msg_nums_def)
    ultimately show "consistent d' \<and> (S \<noteq> ?S0 \<longrightarrow> last_msg_nums S d' = last_msg_nums S d)"
      by (simp add: consistent_def)
  qed
qed

lemma post_message_consistent:
  assumes "consistent d"
  shows "consistent (snd (post_message pg msg now d))"
    and "counter S (snd (post_message pg msg now d))
           = counter S d + (case fst (post_message pg msg now d) of
                              Inl e \<Rightarrow> 0
                            | Inr r \<Rightarrow> if sender_name_req msg = S then 1 else 0)"
proof -
  obtain res d' where p: "post_message pg msg now d = (res, d')" by (cases "post_message pg msg now d")
  show "consistent (snd (post_message pg msg now d))"
    and "counter S (snd (post_message pg msg now d))
           = counter S d + (case fst (post_message pg msg now d) of
                              Inl e \<Rightarrow> 0
                            | Inr r \<Rightarrow> if sender_name_req msg = S then 1 else 0)"
  proof (atomize (full), cases res)
    case (Inl e)
    with p have pe: "post_message pg msg now d = (Inl e, d')" by simp
    have t: "users d' = users d" "messages d' = messages d"
      using post_message_Inl [OF pe] by simp_all
    have "consistent d'" using consistent_tables [OF t] assms by simp
    moreover have "counter S d' = counter S d" using t(1) by (rule counter_tables)
    ultimately show "consistent (snd (post_message pg msg now d)) \<and>
      counter S (snd (post_message pg msg now d))
           = counter S d + (case fst (post_message pg msg now d) of
                              Inl e \<Rightarrow> 0
                            | Inr r \<Rightarrow> if sender_name_req msg = S then 1 else 0)"
      using p Inl by simp
  next
    case (Inr r)
    with p post_message_Inr [of pg msg now d r d'] obtain new_message window where
      tx: "post_message_tx pg msg now d = (Inr (new_message, window), d')" by auto
    note k = post_message_tx_consistent [OF assms tx]
    note c = post_message_tx_counter [OF tx]
    have "counter S d' = counter S d + (if sender_name_req msg = S then 1 else 0)"
    proof (cases "sender_name_req msg = S")
      case True
      then show ?thesis using c by (simp add: counter_def split: list.splits)
    next
      case False
      then have "last_msg_nums S d' = last_msg_nums S d" using k(2) [of S] by auto
      with False show ?thesis by (simp add: counter_def)
    qed
    then show "consistent (snd (post_message pg msg now d)) \<and>
      counter S (snd (post_message pg msg now d))
           = counter S d + (case fst (post_message pg msg now d) of
                              Inl e \<Rightarrow> 0
                            | Inr r \<Rightarrow> if sender_name_req msg = S then 1 else 0)"
      using p Inr k(1) by simp
  qed
qed

lemma run_consistent:
  assumes "consistent d"
  shows "consistent (run reqs d) \<and> counter S (run reqs d) = counter S d + int (accepted S reqs d)"
  using assms
proof (induction reqs arbitrary: d)
  case Nil
  then show ?case by simp
next
  case (Cons rq reqs)
  obtain pg msg now where rq: "rq = (pg, msg, now)" by (cases rq)
  note st = post_message_consistent [OF Cons.prems, where pg = pg and msg = msg and now = now]
  from Cons.IH [OF st(1)] st(2) [where S = S] show ?case
    unfolding rq by (auto split: sum.splits prod.splits)
qed

lemma consistent_empty_db: "consistent empty_db"
  by (simp add: consistent_def empty_db_def)

lemma counter_empty_db: "counter S empty_db = 0"
  by (simp add: counter_def last_msg_nums_def empty_db_def)

section \<open>First messages, violated constraints and validation\<close>

lemma rollback_same: "rollback d d = d"
  by (simp add: rollback_def)

lemma post_message_new_user_succeeds:
  assumes "filter (\<lambda>u. username u = sender_name_req msg) (users d) = []"
    and str: "accepts_text pg (sender_name_req msg)" "accepts_text pg (text_req msg)"
    and fit: "fits_ix_users_username pg (sender_name_req msg)"
             "fits_uq_sender_msgnum pg (sender_name_req msg)"
    and nf: "\<forall>s. \<not> fails pg s"
    and "in_int4 (users_id_seq d)" and "\<forall>u \<in> set (users d). id_user u \<noteq> users_id_seq d"
    and "in_int8 (messages_id_seq d)"
    and "\<forall>m \<in> set (messages d). message_id m \<noteq> messages_id_seq d"
    and "\<forall>m \<in> set (messages d). \<not> (sender_name m = sender_name_req msg \<and> user_msg_num m = 1)"
  shows "\<exists>r d'. post_message pg msg now d = (Inr r, d')"
proof -
  have sel: "select_user_for_update pg (sender_name_req msg) d = Inr None"
    using assms(1) str(1) nf by (simp add: select_user_for_update_def)
  have no_name: "\<forall>u \<in> set (users d). username u \<noteq> sender_name_req msg"
    using assms(1) by (simp add: filter_empty_conv)
  let ?user = "\<lparr>id_user = users_id_seq d, username = sender_name_req msg, last_msg_num = 0\<rparr>"
  let ?d1 = "d\<lparr>users_id_seq := users_id_seq d + 1, users := users d @ [?user]\<rparr>"
  have ins: "insert_user pg (sender_name_req msg) 0 d = (Inr ?user, ?d1)"
    using assms(7,8) no_name str(1) fit(1) nf by (simp add: insert_user_def in_int4_def Let_def)
  then have fc: "find_or_create_user pg msg d = (Inr ?user, ?d1)"
    using sel by (simp add: find_or_create_user_def create_user_if_none_def)
  obtain m d2 where im: "insert_message pg (sender_name_req msg) (text_req msg) 1 now ?d1 = (Inr m, d2)"
    using assms(9,10,11) str fit(2) nf by (simp add: insert_message_def in_int4_def Let_def)
  obtain d3 where upd: "update_last_msg_num pg ?user 1 d2 = (Inr (), d3)"
    using nf by (simp add: update_last_msg_num_def in_int4_def)
  have "\<exists>w. add_message pg ?user msg now ?d1 = (Inr (m, w), d3)"
    using im upd nf by (simp add: add_message_def)
  with fc nf show ?thesis
    by (auto simp: post_message_def db_begin_def post_message_tx_def respond_def)
qed

lemma post_message_violation_error:
  assumes v: "\<exists>m \<in> set (messages d). sender_name m = sender_name_req msg
          \<and> user_msg_num m = (case last_msg_nums (sender_name_req msg) d of
                                [] \<Rightarrow> 1 | c # _ \<Rightarrow> c + 1)"
    and str: "accepts_text pg (sender_name_req msg)" "accepts_text pg (text_req msg)"
    and fit: "fits_ix_users_username pg (sender_name_req msg)"
    and nf: "\<not> fails pg SelectUser" "\<not> fails pg InsertUser" "\<not> fails pg InsertMessage"
    and len: "length (filter (\<lambda>u. username u = sender_name_req msg) (users d)) \<le> 1"
    and rng: "in_int4 (case last_msg_nums (sender_name_req msg) d of [] \<Rightarrow> 1 | c # _ \<Rightarrow> c + 1)"
    and seq: "in_int8 (messages_id_seq d)"
    and useq: "filter (\<lambda>u. username u = sender_name_req msg) (users d) = []
                 \<Longrightarrow> in_int4 (users_id_seq d)"
  shows "fst (post_message pg msg now d) = Inl IntegrityError"
proof -
  have "\<exists>d1. post_message_tx pg msg now d = (Inl IntegrityError, d1)"
  proof (cases "filter (\<lambda>u. username u = sender_name_req msg) (users d)")
    case Nil
    then have sel: "select_user_for_update pg (sender_name_req msg) d = Inr None"
      using str(1) nf(1) by (simp add: select_user_for_update_def)
    from Nil v have v1: "\<exists>m \<in> set (messages d). sender_name m = sender_name_req msg
            \<and> user_msg_num m = 1" by (simp add: last_msg_nums_def)
    show ?thesis
    proof (cases "\<exists>u \<in> set (users d). id_user u = users_id_seq d")
      case True
      then have "fst (insert_user pg (sender_name_req msg) 0 d) = Inl IntegrityError"
        using useq [OF Nil] str(1) nf(2) by (simp add: insert_user_def in_int4_def Let_def)
      then obtain d1 where "insert_user pg (sender_name_req msg) 0 d = (Inl IntegrityError, d1)"
        by (cases "insert_user pg (sender_name_req msg) 0 d") auto
      with sel show ?thesis
        by (simp add: post_message_tx_def find_or_create_user_def create_user_if_none_def)
    next
      case False
      from Nil have "\<forall>u \<in> set (users d). username u \<noteq> sender_name_req msg"
        by (simp add: filter_empty_conv)
      with False useq [OF Nil] str(1) fit nf(2) obtain user d1 where
        ins: "insert_user pg (sender_name_req msg) 0 d = (Inr user, d1)"
        and u0: "last_msg_num user = 0" and m1: "messages d1 = messages d"
          "messages_id_seq d1 = messages_id_seq d"
        by (simp add: insert_user_def in_int4_def Let_def)
      have "fst (insert_message pg (sender_name_req msg) (text_req msg) 1 now d1)
              = Inl IntegrityError"
        using v1 seq m1 str nf(3) by (simp add: insert_message_def in_int4_def Let_def)
      then obtain d2 where
        "insert_message pg (sender_name_req msg) (text_req msg) 1 now d1
           = (Inl IntegrityError, d2)"
        by (cases "insert_message pg (sender_name_req msg) (text_req msg) 1 now d1") auto
      with sel ins u0 show ?thesis
        by (simp add: post_message_tx_def find_or_create_user_def create_user_if_none_def
                      add_message_def)
    qed
  next
    case (Cons u rest)
    with len have f: "filter (\<lambda>u. username u = sender_name_req msg) (users d) = [u]" by simp
    then have sel: "select_user_for_update pg (sender_name_req msg) d = Inr (Some u)"
      using str(1) nf(1) by (simp add: select_user_for_update_def)
    from f v rng have vu: "\<exists>m \<in> set (messages d). sender_name m = sender_name_req msg
            \<and> user_msg_num m = last_msg_num u + 1" and ru: "in_int4 (last_msg_num u + 1)"
      by (simp_all add: last_msg_nums_def)
    have "fst (insert_message pg (sender_name_req msg) (text_req msg) (last_msg_num u + 1) now d)
            = Inl IntegrityError"
      using vu ru seq str nf(3) by (simp add: insert_message_def Let_def)
    then obtain d2 where
      "insert_message pg (sender_name_req msg) (text_req msg) (last_msg_num u + 1) now d
         = (Inl IntegrityError, d2)"
      by (cases "insert_message pg (sender_name_req msg) (text_req msg) (last_msg_num u + 1) now d")
         auto
    with sel show ?thesis
      by (simp add: post_message_tx_def find_or_create_user_def create_user_if_none_def
                    add_message_def)
  qed
  then show ?thesis
    by (auto simp: post_message_def db_begin_def respond_def)
qed

lemma validate_request_Inr:
  "validate_request body = Inr msg \<longleftrightarrow>
     (\<exists>kvs. body = JObject kvs
        \<and> map_of (rev kvs) ''sender_name'' = Some (JString (sender_name_req msg))
        \<and> map_of (rev kvs) ''text'' = Some (JString (text_req msg)))"
  by (cases msg) (auto simp: validate_request_def split: json.splits option.splits)

lemma validate_request_Inl:
  "validate_request body = Inl e \<Longrightarrow> e = UnprocessableEntity"
  by (auto simp: validate_request_def split: json.splits option.splits)

section \<open>Overlapping calls\<close>

text \<open>A call on its own is its select followed by the rest.\<close>

lemma post_message_after_select:
  "post_message pg msg now d =
     (case select_user_for_update pg (sender_name_req msg) d of
        Inl e \<Rightarrow> (Inl e, d)
      | Inr found \<Rightarrow> after_select pg found msg now d)"
  by (simp add: post_message_def after_select_def post_message_tx_def find_or_create_user_def
                db_begin_def respond_def rollback_same split: sum.splits)

text \<open>
  Two calls for a sender that has a row cannot both have their select answered before one
  of them has ended.
\<close>

lemma overlap_waits_for_row:
  assumes "filter (\<lambda>u. username u = sender_name_req msg1) (users d) = [u]"
    and "sender_name_req msg2 = sender_name_req msg1"
  shows "overlap pg1 msg1 now1 pg2 msg2 now2 d = None"
  using assms
  by (auto simp: overlap_def must_wait_def select_user_for_update_def split: sum.splits)

text \<open>
  Two calls for a sender that has no row: both selects return nothing and lock nothing.
  When the first call succeeds, the insert of the second call's user meets the row that
  the first call has committed.
\<close>

lemma overlap_new_sender:
  assumes sel1: "select_user_for_update pg1 (sender_name_req msg1) d = Inr None"
    and sel2: "select_user_for_update pg2 (sender_name_req msg2) d = Inr None"
    and same: "sender_name_req msg2 = sender_name_req msg1"
    and p1: "post_message pg1 msg1 now1 d = (Inr r1, d1)"
    and ok2: "\<not> fails pg2 InsertUser" "in_int4 (users_id_seq d1)"
  shows "\<exists>d2. overlap pg1 msg1 now1 pg2 msg2 now2 d = Some (Inr r1, Inl IntegrityError, d2)
           \<and> users d2 = users d1 \<and> messages d2 = messages d1"
proof -
  have a1: "after_select pg1 None msg1 now1 d = (Inr r1, d1)"
    using p1 sel1 by (simp add: post_message_after_select)
  from post_message_Inr [OF p1] obtain new_message window where
    tx: "post_message_tx pg1 msg1 now1 d = (Inr (new_message, window), d1)" by blast
  from post_message_tx_counter(1) [OF tx]
  have "\<exists>u \<in> set (users d1). username u = sender_name_req msg1"
    by (auto simp: last_msg_nums_def filter_eq_Cons_iff)
  moreover have "accepts_text pg2 (sender_name_req msg1)"
    using select_user_for_update_Inr(2) [OF sel2] same by simp
  ultimately have "insert_user pg2 (sender_name_req msg1) 0 d1
      = (Inl IntegrityError, d1\<lparr>users_id_seq := users_id_seq d1 + 1\<rparr>)"
    using ok2 by (simp add: insert_user_def in_int4_def Let_def)
  then have "after_select pg2 None msg2 now2 d1
      = (Inl IntegrityError, rollback d1 (d1\<lparr>users_id_seq := users_id_seq d1 + 1\<rparr>))"
    using same by (simp add: after_select_def create_user_if_none_def db_begin_def respond_def)
  with a1 sel1 sel2 show ?thesis
    by (simp add: overlap_def must_wait_def rollback_def)
qed

section \<open>Evaluation on the examples\<close>

lemmas model_defs = post_message_def respond_def db_begin_def rollback_def post_message_tx_def
  find_or_create_user_def create_user_if_none_def add_message_def
  select_user_for_update_def insert_user_def update_last_msg_num_def insert_message_def
  last_10_stmt_def empty_db_def in_int4_def in_int8_def to_response_def pg_ok_def
  pg_failing_def Let_def

lemma bob_tx_12:
  "post_message_tx pg_ok \<lparr>sender_name_req = ''Bob'', text_req = ''x''\<rparr> 12 (bob_db 11)
     = (Inr (bob_msg 12, map bob_msg (rev [3..12])), bob_db 12)"
  by (simp add: model_defs bob_db_def bob_msg_def upto_rec1)

lemma bob_post_12:
  "post_message pg_ok \<lparr>sender_name_req = ''Bob'', text_req = ''x''\<rparr> 12 (bob_db 11)
     = (Inr \<lparr>messages_resp = map to_response (map bob_msg (rev [3..12]))\<rparr>, bob_db 12)"
  by (simp add: post_message_def respond_def db_begin_def bob_tx_12) (simp add: pg_ok_def)

text \<open>
  Strings that the example server refuses: a name or a text containing NUL fails the first
  statement that sends it, and a name of 2001 characters fails the insert of the user
  when it reaches the index. Nothing is stored.
\<close>

lemma nul_name_refused:
  "post_message pg_ok \<lparr>sender_name_req = [CHR ''a'', CHR 0x00], text_req = ''x''\<rparr> 1 empty_db
     = (Inl DataError, empty_db)"
  by (simp add: model_defs)

lemma nul_text_refused:
  "post_message pg_ok \<lparr>sender_name_req = ''Eve'', text_req = [CHR ''a'', CHR 0x00, CHR ''b'']\<rparr> 5
      orphan_db
     = (Inl DataError, orphan_db\<lparr>users_id_seq := 2\<rparr>)"
  by (simp add: model_defs orphan_db_def)

lemma long_name_refused:
  "post_message pg_ok \<lparr>sender_name_req = replicate 2001 (CHR ''a''), text_req = ''x''\<rparr> 1 empty_db
     = (Inl ProgramLimitExceeded, empty_db\<lparr>users_id_seq := 2\<rparr>)"
  by (simp add: model_defs)

section \<open>Sequence numbers\<close>

text \<open>
  Claim C1. Requests are served one after the other, starting from the empty store.
  Whatever the requests and their senders, and whatever the database refuses or fails
  on the way, after the run the sequence numbers stored for a sender \<open>S\<close> are
  \<open>1, 2, \<dots>, N\<close>, where \<open>N\<close> is the number of requests of \<open>S\<close> that were accepted: no
  number is missing and none occurs twice. The counter stored for \<open>S\<close> is \<open>N\<close>, in the
  single row of \<open>S\<close>; a sender without an accepted message has no row.
\<close>

theorem sequence_numbers_gapless:
  "user_msg_nums S (run reqs empty_db) = [1..int (accepted S reqs empty_db)]
   \<and> distinct (user_msg_nums S (run reqs empty_db))
   \<and> set (user_msg_nums S (run reqs empty_db)) = {1..int (accepted S reqs empty_db)}
   \<and> last_msg_nums S (run reqs empty_db)
       = (if accepted S reqs empty_db = 0 then [] else [int (accepted S reqs empty_db)])"
proof -
  from run_consistent [OF consistent_empty_db, of reqs S]
  have c: "consistent (run reqs empty_db)"
    and n: "counter S (run reqs empty_db) = int (accepted S reqs empty_db)"
    by (simp_all add: counter_empty_db)
  from consistent_observed [OF c, of S] show ?thesis
    unfolding n by simp
qed

theorem sequence_numbers_gapless_witness:
  "accepted ''Bob'' three_requests empty_db = 2
   \<and> user_msg_nums ''Bob'' (run three_requests empty_db) = [1, 2]
   \<and> last_msg_nums ''Bob'' (run three_requests empty_db) = [2]"
proof -
  have a: "accepted ''Bob'' three_requests empty_db = 2"
    by (simp add: three_requests_def model_defs)
  show ?thesis
    using a sequence_numbers_gapless [of "''Bob''" three_requests]
    by (simp add: upto_rec1)
qed

text \<open>
  Claim C4. A request of a sender without a row in \<^verbatim>\<open>users\<close>. When the call succeeds,
  the first part of its transaction (lines 130--141) has inserted a row for the sender
  with counter 0 and nothing else, and the rest of the transaction has led from that
  state to the stored one: the row of the sender is the only one of that name and ends
  with counter 1, the other rows are unchanged, and the message of the call is stored and
  answered with sequence number 1. When the call fails, neither table has changed: the
  new row belonged to the transaction and is gone with it.
\<close>

theorem first_message_creates_sender:
  assumes "filter (\<lambda>u. username u = sender_name_req msg) (users d) = []"
  shows "case post_message pg msg now d of
           (Inl e, d') \<Rightarrow> users d' = users d \<and> messages d' = messages d
         | (Inr r, d') \<Rightarrow>
             (\<exists>user d1 new_message window.
                 find_or_create_user pg msg d = (Inr user, d1)
                 \<and> user = \<lparr>id_user = users_id_seq d, username = sender_name_req msg,
                            last_msg_num = 0\<rparr>
                 \<and> users d1 = users d @ [user] \<and> messages d1 = messages d
                 \<and> add_message pg user msg now d1 = (Inr (new_message, window), d'))
             \<and> users d' = users d @ [\<lparr>id_user = users_id_seq d,
                   username = sender_name_req msg, last_msg_num = 1\<rparr>]
             \<and> last_msg_nums (sender_name_req msg) d' = [1]
             \<and> sender_name_resp (hd (messages_resp r)) = sender_name_req msg
             \<and> user_msg_num_resp (hd (messages_resp r)) = 1
             \<and> messages d' = messages d @ [\<lparr>message_id = messages_id_seq d,
                   sender_name = sender_name_req msg, text_msg = text_req msg,
                   created_at = now, user_msg_num = 1\<rparr>]"
proof -
  obtain res d' where p0: "post_message pg msg now d = (res, d')"
    by (cases "post_message pg msg now d")
  show ?thesis
  proof (cases res)
    case (Inl e)
    with p0 have "post_message pg msg now d = (Inl e, d')" by simp
    from post_message_Inl [OF this] p0 Inl show ?thesis by simp
  next
    case (Inr r)
    with p0 have p: "post_message pg msg now d = (Inr r, d')" by simp
    from post_message_Inr [OF p] obtain new_message window where
      tx: "post_message_tx pg msg now d = (Inr (new_message, window), d')"
      and r: "r = \<lparr>messages_resp = map to_response window\<rparr>" by blast
    from post_message_tx_Inr [OF tx] obtain user d1 where
      fc: "find_or_create_user pg msg d = (Inr user, d1)"
      and am: "add_message pg user msg now d1 = (Inr (new_message, window), d')" by blast
    from find_or_create_user_Inr [OF fc] obtain found where
      sel: "select_user_for_update pg (sender_name_req msg) d = Inr found"
      and cu: "create_user_if_none pg found msg d = (Inr user, d1)" by blast
    from select_user_for_update_Inr(1) [OF sel] assms have "found = None"
      by (cases found) simp_all
    with create_user_if_none_Inr [OF cu]
    have ins: "insert_user pg (sender_name_req msg) 0 d = (Inr user, d1)" by simp
    note n = insert_user_Inr(1,2) [OF ins]
    have first: "\<exists>user d1 new_message window.
                 find_or_create_user pg msg d = (Inr user, d1)
                 \<and> user = \<lparr>id_user = users_id_seq d, username = sender_name_req msg,
                            last_msg_num = 0\<rparr>
                 \<and> users d1 = users d @ [user] \<and> messages d1 = messages d
                 \<and> add_message pg user msg now d1 = (Inr (new_message, window), d')"
      using fc am n by (intro exI [of _ user] exI [of _ d1] exI [of _ new_message]
                              exI [of _ window]) simp
    note e = post_message_tx_effect [OF tx]
    note c = post_message_tx_counter [OF tx]
    from post_message_tx_head [OF tx] have ne: "window \<noteq> []" and h: "hd window = new_message"
      by simp_all
    have hd_r: "hd (messages_resp r) = to_response new_message"
      using r ne h by (simp add: hd_map)
    have one: "user_msg_num new_message = 1"
      using c(2) assms by (simp add: last_msg_nums_def)
    have us: "users d' = users d @ [\<lparr>id_user = users_id_seq d,
                   username = sender_name_req msg, last_msg_num = 1\<rparr>]"
      using e(11) assms by auto
    have nm: "new_message = \<lparr>message_id = messages_id_seq d,
                   sender_name = sender_name_req msg, text_msg = text_req msg,
                   created_at = now, user_msg_num = 1\<rparr>"
      using e(2-5) one by (cases new_message) simp
    show ?thesis
      using p0 Inr first us c(1) one hd_r e(1,3) nm
      by (simp add: to_response_def)
  qed
qed

theorem first_message_creates_sender_witness:
  "filter (\<lambda>u. username u = ''Al'') (users (bob_db 1)) = []
   \<and> post_message pg_ok \<lparr>sender_name_req = ''Al'', text_req = ''a''\<rparr> 7 (bob_db 1)
       = (Inr \<lparr>messages_resp =
                 [\<lparr>message_id_resp = 2, sender_name_resp = ''Al'', text_resp = ''a'',
                   created_at_resp = 7, user_msg_num_resp = 1\<rparr>,
                  to_response (bob_msg 1)]\<rparr>,
          \<lparr>users = [\<lparr>id_user = 1, username = ''Bob'', last_msg_num = 1\<rparr>,
                    \<lparr>id_user = 2, username = ''Al'', last_msg_num = 1\<rparr>],
           messages = [bob_msg 1,
                       \<lparr>message_id = 2, sender_name = ''Al'', text_msg = ''a'',
                         created_at = 7, user_msg_num = 1\<rparr>],
           users_id_seq = 3, messages_id_seq = 3\<rparr>)
   \<and> find_or_create_user pg_ok \<lparr>sender_name_req = ''Al'', text_req = ''a''\<rparr> (bob_db 1)
       = (Inr \<lparr>id_user = 2, username = ''Al'', last_msg_num = 0\<rparr>,
          (bob_db 1)\<lparr>users := [\<lparr>id_user = 1, username = ''Bob'', last_msg_num = 1\<rparr>,
                                \<lparr>id_user = 2, username = ''Al'', last_msg_num = 0\<rparr>],
                     users_id_seq := 3\<rparr>)
   \<and> post_message (pg_failing InsertMessage) \<lparr>sender_name_req = ''Al'', text_req = ''a''\<rparr> 7
        (bob_db 1)
       = (Inl OperationalError, (bob_db 1)\<lparr>users_id_seq := 3\<rparr>)"
proof -
  have h: "filter (\<lambda>u. username u = sender_name_req \<lparr>sender_name_req = ''Al'', text_req = ''a''\<rparr>)
             (users (bob_db 1)) = []"
    by (simp add: bob_db_def)
  have v: "post_message pg_ok \<lparr>sender_name_req = ''Al'', text_req = ''a''\<rparr> 7 (bob_db 1)
       = (Inr \<lparr>messages_resp =
                 [\<lparr>message_id_resp = 2, sender_name_resp = ''Al'', text_resp = ''a'',
                   created_at_resp = 7, user_msg_num_resp = 1\<rparr>,
                  to_response (bob_msg 1)]\<rparr>,
          \<lparr>users = [\<lparr>id_user = 1, username = ''Bob'', last_msg_num = 1\<rparr>,
                    \<lparr>id_user = 2, username = ''Al'', last_msg_num = 1\<rparr>],
           messages = [bob_msg 1,
                       \<lparr>message_id = 2, sender_name = ''Al'', text_msg = ''a'',
                         created_at = 7, user_msg_num = 1\<rparr>],
           users_id_seq = 3, messages_id_seq = 3\<rparr>)"
    by (simp add: model_defs bob_db_def bob_msg_def)
  have f: "find_or_create_user pg_ok \<lparr>sender_name_req = ''Al'', text_req = ''a''\<rparr> (bob_db 1)
       = (Inr \<lparr>id_user = 2, username = ''Al'', last_msg_num = 0\<rparr>,
          (bob_db 1)\<lparr>users := [\<lparr>id_user = 1, username = ''Bob'', last_msg_num = 1\<rparr>,
                                \<lparr>id_user = 2, username = ''Al'', last_msg_num = 0\<rparr>],
                     users_id_seq := 3\<rparr>)"
    by (simp add: model_defs bob_db_def bob_msg_def)
  have g: "post_message (pg_failing InsertMessage) \<lparr>sender_name_req = ''Al'', text_req = ''a''\<rparr> 7
        (bob_db 1)
       = (Inl OperationalError, (bob_db 1)\<lparr>users_id_seq := 3\<rparr>)"
    by (simp add: model_defs bob_db_def bob_msg_def)
  show ?thesis
    using h v f g first_message_creates_sender [OF h, where now = 7 and pg = pg_ok] by simp
qed

section \<open>Constraints and failures\<close>

text \<open>
  Claim C5. The pair \<^verbatim>\<open>(sender_name, user_msg_num)\<close> stays unique in every store in which it
  is unique, whatever the counters say, because the insert itself checks it. When the
  number that the call would assign is already stored for the sender, the call fails and
  leaves both tables as they were: no other number is tried. The failure is
  \<^verbatim>\<open>IntegrityError\<close>, answered by the endpoint as a server error, whenever nothing fails
  before the constraint is checked: the server accepts the two strings, the name fits
  into the indexes, the statements up to the insert do not fail for outside reasons,
  there is at most one row of that name, and the values are in range.
\<close>

theorem uq_sender_msgnum_enforced:
  assumes "distinct (map (\<lambda>m. (sender_name m, user_msg_num m)) (messages d))"
  shows "distinct (map (\<lambda>m. (sender_name m, user_msg_num m))
                       (messages (snd (post_message pg msg now d))))
       \<and> ((\<exists>m \<in> set (messages d). sender_name m = sender_name_req msg
              \<and> user_msg_num m = (case last_msg_nums (sender_name_req msg) d of
                                    [] \<Rightarrow> 1 | c # _ \<Rightarrow> c + 1))
            \<longrightarrow> (\<exists>e. fst (post_message pg msg now d) = Inl e)
              \<and> users (snd (post_message pg msg now d)) = users d
              \<and> messages (snd (post_message pg msg now d)) = messages d
              \<and> (accepts_text pg (sender_name_req msg) \<and> accepts_text pg (text_req msg)
                  \<and> fits_ix_users_username pg (sender_name_req msg)
                  \<and> fits_uq_sender_msgnum pg (sender_name_req msg)
                  \<and> \<not> fails pg SelectUser \<and> \<not> fails pg InsertUser
                  \<and> \<not> fails pg InsertMessage
                  \<and> length (filter (\<lambda>u. username u = sender_name_req msg) (users d)) \<le> 1
                  \<and> in_int4 (case last_msg_nums (sender_name_req msg) d of
                               [] \<Rightarrow> 1 | c # _ \<Rightarrow> c + 1)
                  \<and> in_int8 (messages_id_seq d)
                  \<and> (filter (\<lambda>u. username u = sender_name_req msg) (users d) = []
                       \<longrightarrow> in_int4 (users_id_seq d))
                  \<longrightarrow> fst (post_message pg msg now d) = Inl IntegrityError
                    \<and> (validate_request body = Inr msg
                         \<longrightarrow> fst (app_post_messages pg body now d)
                               = Inl (InternalServerError IntegrityError))))"
proof -
  obtain res d' where p: "post_message pg msg now d = (res, d')"
    by (cases "post_message pg msg now d")
  have app: "fst (app_post_messages pg body now d) = Inl (InternalServerError IntegrityError)"
    if "res = Inl IntegrityError" "validate_request body = Inr msg"
    using that p by (simp add: app_post_messages_def)
  have keep: "distinct (map (\<lambda>m. (sender_name m, user_msg_num m)) (messages d'))"
  proof (cases res)
    case (Inl e)
    with p have "post_message pg msg now d = (Inl e, d')" by simp
    from post_message_Inl(2) [OF this] assms show ?thesis by simp
  next
    case (Inr r)
    with p post_message_Inr [of pg msg now d r d'] obtain new_message window where
      tx: "post_message_tx pg msg now d = (Inr (new_message, window), d')" by auto
    note e = post_message_tx_effect [OF tx]
    have "(sender_name new_message, user_msg_num new_message)
            \<notin> set (map (\<lambda>m. (sender_name m, user_msg_num m)) (messages d))"
      using e(3,7) by auto
    then show ?thesis using assms e(1) by simp
  qed
  have fails: "(\<exists>e. res = Inl e) \<and> users d' = users d \<and> messages d' = messages d"
    if v: "\<exists>m \<in> set (messages d). sender_name m = sender_name_req msg
              \<and> user_msg_num m = (case last_msg_nums (sender_name_req msg) d of
                                    [] \<Rightarrow> 1 | c # _ \<Rightarrow> c + 1)"
  proof (cases res)
    case (Inl e)
    with p have "post_message pg msg now d = (Inl e, d')" by simp
    from post_message_Inl [OF this] Inl show ?thesis by simp
  next
    case (Inr r)
    with p post_message_Inr [of pg msg now d r d'] obtain new_message window where
      tx: "post_message_tx pg msg now d = (Inr (new_message, window), d')" by auto
    from post_message_tx_effect(7) [OF tx] post_message_tx_counter(2) [OF tx] v
    have False by auto
    then show ?thesis ..
  qed
  show ?thesis
    using keep fails app post_message_violation_error [of d msg pg now] p by auto
qed

theorem uq_sender_msgnum_enforced_witness:
  "distinct (map (\<lambda>m. (sender_name m, user_msg_num m)) (messages orphan_db))
   \<and> post_message pg_ok \<lparr>sender_name_req = ''Eve'', text_req = ''w''\<rparr> 5 orphan_db
     = (Inl IntegrityError, orphan_db\<lparr>users_id_seq := 2, messages_id_seq := 3\<rparr>)
   \<and> app_post_messages pg_ok
        (JObject [(''sender_name'', JString ''Eve''), (''text'', JString ''w'')]) 5 orphan_db
     = (Inl (InternalServerError IntegrityError),
        orphan_db\<lparr>users_id_seq := 2, messages_id_seq := 3\<rparr>)"
proof -
  have h: "distinct (map (\<lambda>m. (sender_name m, user_msg_num m)) (messages orphan_db))"
    by (simp add: orphan_db_def)
  have v: "post_message pg_ok \<lparr>sender_name_req = ''Eve'', text_req = ''w''\<rparr> 5 orphan_db
     = (Inl IntegrityError, orphan_db\<lparr>users_id_seq := 2, messages_id_seq := 3\<rparr>)"
    by (simp add: model_defs orphan_db_def)
  have b: "validate_request (JObject [(''sender_name'', JString ''Eve''), (''text'', JString ''w'')])
     = Inr \<lparr>sender_name_req = ''Eve'', text_req = ''w''\<rparr>"
    by (simp add: validate_request_def)
  have a: "app_post_messages pg_ok
        (JObject [(''sender_name'', JString ''Eve''), (''text'', JString ''w'')]) 5 orphan_db
     = (Inl (InternalServerError IntegrityError),
        orphan_db\<lparr>users_id_seq := 2, messages_id_seq := 3\<rparr>)"
    by (simp add: app_post_messages_def b v)
  show ?thesis
    using h v a uq_sender_msgnum_enforced
      [OF h, where msg = "\<lparr>sender_name_req = ''Eve'', text_req = ''w''\<rparr>" and now = 5
         and pg = pg_ok
         and body = "JObject [(''sender_name'', JString ''Eve''), (''text'', JString ''w'')]"]
    by simp
qed

text \<open>
  Claim C6. A call of \<^verbatim>\<open>post_message\<close> either fails and leaves both tables unchanged, or
  succeeds and has done both things: appended one message of the sender and set the
  sender's counter to that message's sequence number, one above the previous counter.
  This holds whichever statement fails and for whatever reason, the commit included.
  Only the sequences keep the values drawn by a failed call. The example shows a call
  whose update of the counter fails after its message has been inserted, and a call whose
  commit fails after both changes: neither change is in the store after the call.
\<close>

theorem transaction_all_or_nothing:
  "case post_message pg msg now d of
     (Inl e, d') \<Rightarrow> users d' = users d \<and> messages d' = messages d
   | (Inr r, d') \<Rightarrow>
       (\<exists>m. messages d' = messages d @ [m]
            \<and> sender_name m = sender_name_req msg
            \<and> last_msg_nums (sender_name_req msg) d' = [user_msg_num m]
            \<and> user_msg_num m
                = (case last_msg_nums (sender_name_req msg) d of [] \<Rightarrow> 1 | c # _ \<Rightarrow> c + 1))"
proof -
  obtain res d' where p: "post_message pg msg now d = (res, d')"
    by (cases "post_message pg msg now d")
  show ?thesis
  proof (cases res)
    case (Inl e)
    with p have "post_message pg msg now d = (Inl e, d')" by simp
    from post_message_Inl [OF this] p Inl show ?thesis by simp
  next
    case (Inr r)
    with p post_message_Inr [of pg msg now d r d'] obtain new_message window where
      tx: "post_message_tx pg msg now d = (Inr (new_message, window), d')" by auto
    note e = post_message_tx_effect [OF tx]
    note c = post_message_tx_counter [OF tx]
    show ?thesis using p Inr e(1,3) c by simp
  qed
qed

theorem transaction_all_or_nothing_witness:
  "post_message_tx (pg_failing UpdateUser) \<lparr>sender_name_req = ''Bob'', text_req = ''x''\<rparr> 2
      (bob_db 1)
     = (Inl OperationalError,
        (bob_db 1)\<lparr>messages := [bob_msg 1, bob_msg 2], messages_id_seq := 3\<rparr>)
   \<and> post_message (pg_failing UpdateUser) \<lparr>sender_name_req = ''Bob'', text_req = ''x''\<rparr> 2
        (bob_db 1)
     = (Inl OperationalError, (bob_db 1)\<lparr>messages_id_seq := 3\<rparr>)
   \<and> post_message_tx (pg_failing Commit) \<lparr>sender_name_req = ''Bob'', text_req = ''x''\<rparr> 2
        (bob_db 1)
     = (Inr (bob_msg 2, [bob_msg 2, bob_msg 1]), bob_db 2)
   \<and> post_message (pg_failing Commit) \<lparr>sender_name_req = ''Bob'', text_req = ''x''\<rparr> 2
        (bob_db 1)
     = (Inl OperationalError, (bob_db 1)\<lparr>messages_id_seq := 3\<rparr>)"
proof -
  have t: "post_message_tx (pg_failing UpdateUser) \<lparr>sender_name_req = ''Bob'', text_req = ''x''\<rparr> 2
      (bob_db 1)
     = (Inl OperationalError,
        (bob_db 1)\<lparr>messages := [bob_msg 1, bob_msg 2], messages_id_seq := 3\<rparr>)"
    by (simp add: model_defs bob_db_def bob_msg_def)
  have v: "post_message (pg_failing UpdateUser) \<lparr>sender_name_req = ''Bob'', text_req = ''x''\<rparr> 2
        (bob_db 1)
     = (Inl OperationalError, (bob_db 1)\<lparr>messages_id_seq := 3\<rparr>)"
    by (simp add: model_defs bob_db_def bob_msg_def)
  have t2: "post_message_tx (pg_failing Commit) \<lparr>sender_name_req = ''Bob'', text_req = ''x''\<rparr> 2
        (bob_db 1)
     = (Inr (bob_msg 2, [bob_msg 2, bob_msg 1]), bob_db 2)"
    by (simp add: model_defs bob_db_def bob_msg_def upto_rec1)
  have v2: "post_message (pg_failing Commit) \<lparr>sender_name_req = ''Bob'', text_req = ''x''\<rparr> 2
        (bob_db 1)
     = (Inl OperationalError, (bob_db 1)\<lparr>messages_id_seq := 3\<rparr>)"
    by (simp add: model_defs bob_db_def bob_msg_def)
  show ?thesis
    using t v t2 v2 transaction_all_or_nothing
      [where msg = "\<lparr>sender_name_req = ''Bob'', text_req = ''x''\<rparr>" and now = 2
         and d = "bob_db 1" and pg = "pg_failing UpdateUser"]
    by simp
qed

text \<open>
  Claim C7, amended. The sender name is a string and may be empty, as may the text. A
  body that is not an object whose \<^verbatim>\<open>sender_name\<close> and \<^verbatim>\<open>text\<close> are both present and
  strings is answered with status 422 and leaves the store untouched, the sequences
  included; every other body reaches \<^verbatim>\<open>post_message\<close> with exactly these two strings. A
  first request with the empty sender name succeeds and is stored under the empty name
  with sequence number 1, provided the server accepts the empty string and the text,
  fails no statement, and the sequences are in range and fresh.
\<close>

theorem validation_before_transaction:
  "(validate_request body = Inl e
      \<longrightarrow> app_post_messages pg body now d = (Inl UnprocessableEntity, d))
   \<and> (validate_request body = Inr msg \<longleftrightarrow>
        (\<exists>kvs. body = JObject kvs
           \<and> map_of (rev kvs) ''sender_name'' = Some (JString (sender_name_req msg))
           \<and> map_of (rev kvs) ''text'' = Some (JString (text_req msg))))
   \<and> (validate_request body = Inr msg
        \<longrightarrow> app_post_messages pg body now d
            = (case post_message pg msg now d of
                 (Inl err, d') \<Rightarrow> (Inl (InternalServerError err), d')
               | (Inr r, d') \<Rightarrow> (Inr r, d')))
   \<and> (accepts_text pg [] \<and> accepts_text pg t
        \<and> fits_ix_users_username pg [] \<and> fits_uq_sender_msgnum pg []
        \<and> (\<forall>s. \<not> fails pg s)
        \<and> filter (\<lambda>u. username u = []) (users d) = []
        \<and> in_int4 (users_id_seq d) \<and> (\<forall>u \<in> set (users d). id_user u \<noteq> users_id_seq d)
        \<and> in_int8 (messages_id_seq d)
        \<and> (\<forall>m \<in> set (messages d). message_id m \<noteq> messages_id_seq d)
        \<and> (\<forall>m \<in> set (messages d). \<not> (sender_name m = [] \<and> user_msg_num m = 1))
      \<longrightarrow> (\<exists>r d'. app_post_messages pg
                      (JObject [(''sender_name'', JString []), (''text'', JString t)]) now d
                    = (Inr r, d')
                \<and> sender_name_resp (hd (messages_resp r)) = []
                \<and> text_resp (hd (messages_resp r)) = t
                \<and> last_msg_nums [] d' = [1]
                \<and> user_msg_nums [] d' = user_msg_nums [] d @ [1]))"
proof -
  have rejected: "validate_request body = Inl e
      \<longrightarrow> app_post_messages pg body now d = (Inl UnprocessableEntity, d)"
    using validate_request_Inl [of body e] by (auto simp: app_post_messages_def)
  have passed: "validate_request body = Inr msg
        \<longrightarrow> app_post_messages pg body now d
            = (case post_message pg msg now d of
                 (Inl err, d') \<Rightarrow> (Inl (InternalServerError err), d')
               | (Inr r, d') \<Rightarrow> (Inr r, d'))"
    by (simp add: app_post_messages_def)
  have empty_name: "\<exists>r d'. app_post_messages pg
                      (JObject [(''sender_name'', JString []), (''text'', JString t)]) now d
                    = (Inr r, d')
                \<and> sender_name_resp (hd (messages_resp r)) = []
                \<and> text_resp (hd (messages_resp r)) = t
                \<and> last_msg_nums [] d' = [1]
                \<and> user_msg_nums [] d' = user_msg_nums [] d @ [1]"
    if ok: "accepts_text pg []" "accepts_text pg t"
        "fits_ix_users_username pg []" "fits_uq_sender_msgnum pg []"
        "\<forall>s. \<not> fails pg s"
        "filter (\<lambda>u. username u = []) (users d) = []"
        "in_int4 (users_id_seq d)" "\<forall>u \<in> set (users d). id_user u \<noteq> users_id_seq d"
        "in_int8 (messages_id_seq d)"
        "\<forall>m \<in> set (messages d). message_id m \<noteq> messages_id_seq d"
        "\<forall>m \<in> set (messages d). \<not> (sender_name m = [] \<and> user_msg_num m = 1)"
  proof -
    let ?msg = "\<lparr>sender_name_req = [], text_req = t\<rparr>"
    have val: "validate_request (JObject [(''sender_name'', JString []), (''text'', JString t)])
                 = Inr ?msg"
      by (simp add: validate_request_def)
    from post_message_new_user_succeeds [of ?msg d pg now] ok obtain r d' where
      p: "post_message pg ?msg now d = (Inr r, d')" by auto
    from post_message_Inr [OF p] obtain new_message window where
      tx: "post_message_tx pg ?msg now d = (Inr (new_message, window), d')"
      and r: "r = \<lparr>messages_resp = map to_response window\<rparr>" by blast
    note e = post_message_tx_effect [OF tx]
    note c = post_message_tx_counter [OF tx]
    from post_message_tx_head [OF tx] have ne: "window \<noteq> []" and h: "hd window = new_message"
      by simp_all
    have hd_r: "hd (messages_resp r) = to_response new_message"
      using r ne h by (simp add: hd_map)
    have one: "user_msg_num new_message = 1"
      using c(2) ok(6) by (simp add: last_msg_nums_def)
    have "app_post_messages pg
            (JObject [(''sender_name'', JString []), (''text'', JString t)]) now d = (Inr r, d')"
      using val p by (simp add: app_post_messages_def)
    moreover have "sender_name_resp (hd (messages_resp r)) = []"
      and "text_resp (hd (messages_resp r)) = t"
      using hd_r e(3,4) by (simp_all add: to_response_def)
    moreover have "last_msg_nums [] d' = [1]" using c(1) one by simp
    moreover have "user_msg_nums [] d' = user_msg_nums [] d @ [1]"
      using user_msg_nums_append [OF e(1), of "[]"] e(3) one by simp
    ultimately show ?thesis by blast
  qed
  show ?thesis
    using rejected passed empty_name validate_request_Inr [of body msg] by blast
qed

theorem validation_before_transaction_witness:
  "validate_request (JObject [(''sender_name'', JNumber 5), (''text'', JString ''x'')])
     = Inl UnprocessableEntity
   \<and> app_post_messages pg_ok
        (JObject [(''sender_name'', JNumber 5), (''text'', JString ''x'')]) 3 (bob_db 1)
     = (Inl UnprocessableEntity, bob_db 1)
   \<and> validate_request (JObject [(''text'', JString ''x'')]) = Inl UnprocessableEntity
   \<and> user_msg_nums [] (snd (app_post_messages pg_ok
        (JObject [(''sender_name'', JString []), (''text'', JString [])]) 3 (bob_db 1))) = [1]"
proof -
  have h: "validate_request (JObject [(''sender_name'', JNumber 5), (''text'', JString ''x'')])
     = Inl UnprocessableEntity"
    by (simp add: validate_request_def)
  have m: "validate_request (JObject [(''text'', JString ''x'')]) = Inl UnprocessableEntity"
    by (simp add: validate_request_def)
  have ok: "accepts_text pg_ok [] \<and> accepts_text pg_ok []
        \<and> fits_ix_users_username pg_ok [] \<and> fits_uq_sender_msgnum pg_ok []
        \<and> (\<forall>s. \<not> fails pg_ok s)
        \<and> filter (\<lambda>u. username u = []) (users (bob_db 1)) = []
        \<and> in_int4 (users_id_seq (bob_db 1))
        \<and> (\<forall>u \<in> set (users (bob_db 1)). id_user u \<noteq> users_id_seq (bob_db 1))
        \<and> in_int8 (messages_id_seq (bob_db 1))
        \<and> (\<forall>m \<in> set (messages (bob_db 1)). message_id m \<noteq> messages_id_seq (bob_db 1))
        \<and> (\<forall>m \<in> set (messages (bob_db 1)). \<not> (sender_name m = [] \<and> user_msg_num m = 1))"
    by (simp add: pg_ok_def bob_db_def bob_msg_def in_int4_def in_int8_def)
  have n: "user_msg_nums [] (bob_db 1) = []"
    by (simp add: user_msg_nums_def bob_db_def bob_msg_def)
  show ?thesis
    using h m ok n validation_before_transaction
      [where body = "JObject [(''sender_name'', JNumber 5), (''text'', JString ''x'')]"
         and e = UnprocessableEntity and now = 3 and d = "bob_db 1" and pg = pg_ok
         and t = "[]"]
    by auto
qed

text \<open>
  The claim as stated asks for a non-empty sender name. The endpoint accepts the empty
  name: on the empty store it creates a user with the empty name and stores the message.
\<close>

theorem empty_sender_name_accepted:
  "validate_request (JObject [(''sender_name'', JString ''''), (''text'', JString '''')])
     = Inr \<lparr>sender_name_req = '''', text_req = ''''\<rparr>
   \<and> app_post_messages pg_ok
        (JObject [(''sender_name'', JString ''''), (''text'', JString '''')]) 0 empty_db
     = (Inr \<lparr>messages_resp =
               [\<lparr>message_id_resp = 1, sender_name_resp = '''', text_resp = '''',
                 created_at_resp = 0, user_msg_num_resp = 1\<rparr>]\<rparr>,
        \<lparr>users = [\<lparr>id_user = 1, username = '''', last_msg_num = 1\<rparr>],
         messages = [\<lparr>message_id = 1, sender_name = '''', text_msg = '''',
                       created_at = 0, user_msg_num = 1\<rparr>],
         users_id_seq = 2, messages_id_seq = 2\<rparr>)"
  by (simp add: app_post_messages_def validate_request_def model_defs)

section \<open>Two overlapping calls of one sender\<close>

text \<open>
  Claim C3. For a sender that has a row, the select of a second call cannot return
  before the first call has ended (\<open>overlap_waits_for_row\<close>), so the second call reads
  the counter that the first one has written. For a sender that has no row there is
  nothing to lock. On the empty store, two calls of Bob overlap: both selects find no
  row, both calls take the branch that creates the user with counter 0, the first call
  stores its message with number 1, and the insert of the second call's user violates
  the unique index on \<^verbatim>\<open>username\<close>. The second caller gets an error, and its message is
  not stored.
\<close>

theorem overlapping_first_messages_collide:
  "select_user_for_update pg_ok ''Bob'' empty_db = Inr None
   \<and> overlap pg_ok \<lparr>sender_name_req = ''Bob'', text_req = ''x''\<rparr> 1
              pg_ok \<lparr>sender_name_req = ''Bob'', text_req = ''y''\<rparr> 2 empty_db
     = Some (Inr \<lparr>messages_resp =
                    [\<lparr>message_id_resp = 1, sender_name_resp = ''Bob'', text_resp = ''x'',
                      created_at_resp = 1, user_msg_num_resp = 1\<rparr>]\<rparr>,
             Inl IntegrityError,
             \<lparr>users = [\<lparr>id_user = 1, username = ''Bob'', last_msg_num = 1\<rparr>],
              messages = [\<lparr>message_id = 1, sender_name = ''Bob'', text_msg = ''x'',
                            created_at = 1, user_msg_num = 1\<rparr>],
              users_id_seq = 3, messages_id_seq = 2\<rparr>)"
  by (simp add: overlap_def must_wait_def after_select_def model_defs)

section \<open>The recent window\<close>

text \<open>
  Claim C2. When the transaction of \<^verbatim>\<open>post_message\<close> succeeds, the window read inside it
  holds at most 10 messages, all of them stored and none with an identifier above that of
  the message just inserted, ordered by identifier from newest to oldest; its length is
  the smaller of 10 and the number of stored messages up to the new identifier, so that
  when there are at most 10 of those the window holds exactly them, with nothing added.
\<close>

theorem recent_window_bounded:
  assumes "post_message_tx pg msg now d = (Inr (new_message, last_10_messages), d')"
  shows "new_message \<in> set (messages d')
       \<and> length last_10_messages \<le> 10
       \<and> (\<forall>m \<in> set last_10_messages.
             m \<in> set (messages d') \<and> message_id m \<le> message_id new_message)
       \<and> sorted_wrt (\<lambda>a b. a \<ge> b) (map message_id last_10_messages)
       \<and> length last_10_messages
           = min 10 (length (filter (\<lambda>m. message_id m \<le> message_id new_message) (messages d')))
       \<and> (length (filter (\<lambda>m. message_id m \<le> message_id new_message) (messages d')) \<le> 10
            \<longrightarrow> mset last_10_messages
                = mset (filter (\<lambda>m. message_id m \<le> message_id new_message) (messages d')))"
proof -
  note e = post_message_tx_effect [OF assms]
  have w: "last_10_messages = last_10_stmt (message_id new_message) (messages d')" by (rule e(8))
  have "new_message \<in> set (messages d')" using e(1) by simp
  moreover have "length last_10_messages \<le> 10" unfolding w by (simp add: length_last_10_stmt)
  moreover have "\<forall>m \<in> set last_10_messages.
             m \<in> set (messages d') \<and> message_id m \<le> message_id new_message"
    unfolding w using set_last_10_stmt [of "message_id new_message" "messages d'"] by blast
  moreover have "sorted_wrt (\<lambda>a b. a \<ge> b) (map message_id last_10_messages)"
    unfolding w by (rule desc_last_10_stmt)
  moreover have "length last_10_messages
           = min 10 (length (filter (\<lambda>m. message_id m \<le> message_id new_message) (messages d')))"
    unfolding w by (rule length_last_10_stmt)
  moreover have "length (filter (\<lambda>m. message_id m \<le> message_id new_message) (messages d')) \<le> 10
            \<longrightarrow> mset last_10_messages
                = mset (filter (\<lambda>m. message_id m \<le> message_id new_message) (messages d'))"
    unfolding w by (simp add: mset_last_10_stmt)
  ultimately show ?thesis by blast
qed

theorem recent_window_bounded_witness:
  "post_message_tx pg_ok \<lparr>sender_name_req = ''Bob'', text_req = ''x''\<rparr> 12 (bob_db 11)
     = (Inr (bob_msg 12, map bob_msg (rev [3..12])), bob_db 12)
   \<and> length (map bob_msg (rev [3..12])) = 10
   \<and> list_all (\<lambda>m. message_id m \<le> message_id (bob_msg 12)) (map bob_msg (rev [3..12]))
   \<and> sorted_wrt (\<lambda>a b. a \<ge> b) (map message_id (map bob_msg (rev [3..12])))"
proof -
  note h = bob_tx_12
  have "length (map bob_msg (rev [3..12])) = 10" by (simp add: upto_rec1)
  then show ?thesis using h recent_window_bounded [OF h] by (simp add: list_all_iff)
qed

text \<open>
  Claim C8. The window is a function of the rows in the table and of the bound alone:
  two stores holding the same rows, in whatever physical order, with \<^verbatim>\<open>message_id\<close> a key,
  give the same ordered list for every bound. Reading twice from an unchanged store
  therefore returns the identical list.
\<close>

theorem recent_window_deterministic:
  assumes "mset ms = mset ms'" and "distinct (map message_id ms)"
  shows "last_10_stmt n ms = last_10_stmt n ms'"
  using assms by (rule last_10_stmt_perm)

theorem recent_window_deterministic_witness:
  "mset [bob_msg 1, bob_msg 2, bob_msg 3] = mset [bob_msg 3, bob_msg 1, bob_msg 2]
   \<and> distinct (map message_id [bob_msg 1, bob_msg 2, bob_msg 3])
   \<and> last_10_stmt 2 [bob_msg 1, bob_msg 2, bob_msg 3] = last_10_stmt 2 [bob_msg 3, bob_msg 1, bob_msg 2]
   \<and> last_10_stmt 2 [bob_msg 3, bob_msg 1, bob_msg 2] = [bob_msg 2, bob_msg 1]"
proof -
  have m: "mset [bob_msg 1, bob_msg 2, bob_msg 3] = mset [bob_msg 3, bob_msg 1, bob_msg 2]"
    by (simp add: add.commute)
  have d: "distinct (map message_id [bob_msg 1, bob_msg 2, bob_msg 3])"
    by (simp add: bob_msg_def)
  have v: "last_10_stmt 2 [bob_msg 3, bob_msg 1, bob_msg 2] = [bob_msg 2, bob_msg 1]"
    by (simp add: last_10_stmt_def bob_msg_def)
  show ?thesis using m d v recent_window_deterministic [OF m d, of 2] by simp
qed

text \<open>
  Claim C9. When \<^verbatim>\<open>post_message\<close> succeeds, the response is not empty and its first entry
  is the message inserted by this call: it carries the sender name and the text of the
  request, the identifier drawn from the sequence and the time of the call; its
  \<^verbatim>\<open>user_msg_num\<close> is the counter assigned by this call, that is 1 for a new sender and
  the previous counter plus 1 otherwise, and it is the counter stored for the sender
  afterwards.
\<close>

theorem newest_is_own_message:
  assumes "post_message pg msg now d = (Inr r, d')"
  shows "messages_resp r \<noteq> []
       \<and> sender_name_resp (hd (messages_resp r)) = sender_name_req msg
       \<and> text_resp (hd (messages_resp r)) = text_req msg
       \<and> message_id_resp (hd (messages_resp r)) = messages_id_seq d
       \<and> created_at_resp (hd (messages_resp r)) = now
       \<and> user_msg_num_resp (hd (messages_resp r))
           = (case last_msg_nums (sender_name_req msg) d of [] \<Rightarrow> 1 | c # _ \<Rightarrow> c + 1)
       \<and> last_msg_nums (sender_name_req msg) d' = [user_msg_num_resp (hd (messages_resp r))]
       \<and> hd (messages_resp r) = to_response (last (messages d'))"
proof -
  from post_message_Inr [OF assms] obtain new_message window where
    tx: "post_message_tx pg msg now d = (Inr (new_message, window), d')"
    and r: "r = \<lparr>messages_resp = map to_response window\<rparr>" by blast
  note e = post_message_tx_effect [OF tx]
  note c = post_message_tx_counter [OF tx]
  from post_message_tx_head [OF tx] have ne: "window \<noteq> []" and h: "hd window = new_message"
    by simp_all
  have hd_r: "hd (messages_resp r) = to_response new_message"
    using r ne h by (simp add: hd_map)
  show ?thesis
    unfolding hd_r using r ne e(1-5) c by (simp add: to_response_def)
qed

theorem newest_is_own_message_witness:
  "post_message pg_ok \<lparr>sender_name_req = ''Bob'', text_req = ''x''\<rparr> 12 (bob_db 11)
     = (Inr \<lparr>messages_resp = map to_response (map bob_msg (rev [3..12]))\<rparr>, bob_db 12)
   \<and> sender_name_resp (hd (map to_response (map bob_msg (rev [3..12])))) = ''Bob''
   \<and> user_msg_num_resp (hd (map to_response (map bob_msg (rev [3..12])))) = 12
   \<and> last_msg_nums ''Bob'' (bob_db 12) = [12]"
proof -
  note h = bob_post_12
  have l: "last_msg_nums ''Bob'' (bob_db 11) = [11]"
    by (simp add: last_msg_nums_def bob_db_def)
  show ?thesis using h l newest_is_own_message [OF h]
    by (simp add: bob_msg_def bob_db_def to_response_def upto_rec1)
qed

text \<open>
  Claim C10. When the identifiers of the stored messages are pairwise distinct (the
  primary key of table \<^verbatim>\<open>messages\<close>) and \<^verbatim>\<open>post_message\<close> succeeds, the identifiers in the
  response are strictly decreasing, so no message occurs twice in it.
\<close>

theorem window_strictly_decreasing:
  assumes "distinct (map message_id (messages d))"
    and "post_message pg msg now d = (Inr r, d')"
  shows "sorted_wrt (\<lambda>a b. a > b) (map message_id_resp (messages_resp r))
       \<and> distinct (map message_id_resp (messages_resp r))
       \<and> distinct (messages_resp r)"
proof -
  from post_message_Inr [OF assms(2)] obtain new_message window where
    tx: "post_message_tx pg msg now d = (Inr (new_message, window), d')"
    and r: "r = \<lparr>messages_resp = map to_response window\<rparr>" by blast
  note e = post_message_tx_effect [OF tx]
  have "distinct (map message_id (messages d'))"
    using assms(1) e(1,6) by auto
  then have "sorted_wrt (\<lambda>a b. a > b) (map message_id window)"
    unfolding e(8) by (rule strict_desc_last_10_stmt)
  moreover have "map message_id_resp (messages_resp r) = map message_id window"
    using r by (simp add: to_response_def comp_def)
  ultimately have s: "sorted_wrt (\<lambda>a b. a > b) (map message_id_resp (messages_resp r))" by simp
  then have "distinct (map message_id_resp (messages_resp r))"
    using strict_sorted_iff [of "rev (map message_id_resp (messages_resp r))"]
    by (simp add: sorted_wrt_rev)
  with s show ?thesis by (simp add: distinct_map)
qed

theorem window_strictly_decreasing_witness:
  "distinct (map message_id (messages (bob_db 11)))
   \<and> post_message pg_ok \<lparr>sender_name_req = ''Bob'', text_req = ''x''\<rparr> 12 (bob_db 11)
     = (Inr \<lparr>messages_resp = map to_response (map bob_msg (rev [3..12]))\<rparr>, bob_db 12)
   \<and> sorted_wrt (\<lambda>a b. a > b) (map message_id_resp (map to_response (map bob_msg (rev [3..12]))))"
proof -
  note h = bob_post_12
  have d: "distinct (map message_id (messages (bob_db 11)))"
    by (simp add: bob_db_def bob_msg_def upto_rec1)
  show ?thesis using h d window_strictly_decreasing [OF d h] by simp
qed

end
